theory Spec2Isabelle
  imports Complex_Main "HOL-Library.Word"
begin

section \<open>Machine integers and faults\<close>

text \<open>
  The Go sources are modelled for a 64-bit target: \<open>int\<close> and \<open>uint64\<close> are 64 bits
  wide, \<open>int32\<close> is 32 bits wide. Unsigned values are read with \<open>unat\<close>/\<open>uint\<close>,
  signed ones with \<open>sint\<close>; \<open>+\<close>, \<open>-\<close> and \<open>*\<close> on words wrap around as the Go
  operators do.
\<close>

type_synonym uint64 = "64 word"
type_synonym int32 = "32 word"
type_synonym uint16 = "16 word"

text \<open>Run-time panics of the Go code, as values.\<close>

datatype fault =
    DivideByZero
  | NilDereference
  | IndexOutOfRange
  | NegativeLength
  | UnsafeReclamation

section \<open>Allocator facade: bin statistics\<close>

text \<open>
  \<^verbatim>\<open>
  func computeBinFrag(curregs, curslabs, nregs uint64) uint64 {
      if curslabs <= 0 || nregs <= 0 { return 0 }
      return 100 - ((100*curregs) / (curslabs * nregs))
  }
  \<close>
  All arithmetic is on \<open>uint64\<close>. The product \<open>curslabs * nregs\<close> can wrap to zero,
  in which case the division panics.
\<close>

definition computeBinFrag :: "uint64 \<Rightarrow> uint64 \<Rightarrow> uint64 \<Rightarrow> fault + uint64" where
  "computeBinFrag curregs curslabs nregs =
     (if curslabs \<le> 0 \<or> nregs \<le> 0 then Inr 0
      else if curslabs * nregs = 0 then Inl DivideByZero
      else Inr (100 - ((100 * curregs) div (curslabs * nregs))))"

definition computeBinResident :: "uint64 \<Rightarrow> uint64 \<Rightarrow> uint64 \<Rightarrow> uint64" where
  "computeBinResident curslabs nregs sz = curslabs * nregs * sz"

section \<open>Access barrier\<close>

subsection \<open>Constants and sessions\<close>

text \<open>
  \<^verbatim>\<open>const barrierFlushOffset = math.MaxInt32 / 2\<close> is an untyped integer constant
  expression; \<^verbatim>\<open>math.MaxInt32\<close> is \<open>1<<31 - 1\<close> and the division is integer
  division.
\<close>

definition MaxInt32 :: int where
  "MaxInt32 = 2 ^ 31 - 1"

definition barrierFlushOffset :: int where
  "barrierFlushOffset = MaxInt32 div 2"

type_synonym addr = nat

text \<open>
  A \<^verbatim>\<open>BarrierSession\<close>. The field \<^verbatim>\<open>liveCount *int32\<close> points to a cell allocated
  with the session (\<^verbatim>\<open>new(int32)\<close>) and never shared or reassigned, so the cell is
  kept in the record. \<^verbatim>\<open>objectRef\<close> is an opaque pointer, \<open>0\<close> for nil.
\<close>

record BarrierSession =
  liveCount :: int32
  objectRef :: nat
  seqno :: uint64
  closed :: int32

text \<open>
  \<^verbatim>\<open>
  func CompareBS(this, that unsafe.Pointer) int {
      thisItm := (*BarrierSession)(this)
      thatItm := (*BarrierSession)(that)
      return int(thisItm.seqno) - int(thatItm.seqno)
  }
  \<close>
  The conversion \<^verbatim>\<open>int(uint64)\<close> keeps the 64 bits, the subtraction wraps, and the result
  is read as a signed 64-bit value.
\<close>

definition CompareBS :: "BarrierSession \<Rightarrow> BarrierSession \<Rightarrow> int" where
  "CompareBS thisItm thatItm = sint (seqno thisItm - seqno thatItm)"

definition newBarrierSession :: BarrierSession where
  "newBarrierSession = \<lparr>liveCount = 0, objectRef = 0, seqno = 0, closed = 0\<rparr>"

subsection \<open>The barrier\<close>

text \<open>
  Sessions live on the heap and are shared by pointer between the barrier, its free
  queue and the accessors' handles: \<open>sessions\<close> is the store, \<open>nextAddr\<close> the next
  fresh address. The destructor \<^verbatim>\<open>callb\<close> is an opaque callback; the model records
  its invocations, oldest first, as the list of arguments it was called with.
\<close>

record AccessBarrier =
  activeSeqno :: uint64
  session :: addr
  callb :: "nat list"
  freeq :: "addr list"
  freeSeqno :: uint64
  isDestructorRunning :: int32
  numAllocated :: "64 word"
  numFreed :: "64 word"
  active :: bool
  sessions :: "addr \<Rightarrow> BarrierSession"
  nextAddr :: addr

definition newAccessBarrier :: "bool \<Rightarrow> AccessBarrier" where
  "newAccessBarrier act =
     \<lparr>activeSeqno = 0, session = 0, callb = [], freeq = [], freeSeqno = 0,
      isDestructorRunning = 0, numAllocated = 1, numFreed = 0, active = act,
      sessions = (\<lambda>_. newBarrierSession), nextAddr = 1\<rparr>"

text \<open>
  Modelled from the spec: the free queue's skiplist operations
  (\<^verbatim>\<open>Insert(item, cmp, buf, stats)\<close>, \<^verbatim>\<open>NewIterator\<close>, \<^verbatim>\<open>SeekFirst\<close>, \<^verbatim>\<open>Valid\<close>,
  \<^verbatim>\<open>Next\<close>, \<^verbatim>\<open>GetNode\<close>, \<^verbatim>\<open>DeleteNode\<close>) are not among the sources. The spec has
  \<open>freeq\<close> a skiplist of sessions ordered by the comparator, insertion placing an item
  before the first one that does not compare below it, and iteration running along
  level 0 from the first item. The queue is the list of session addresses in that order.
\<close>

fun freeq_Insert :: "(addr \<Rightarrow> BarrierSession) \<Rightarrow> addr \<Rightarrow> addr list \<Rightarrow> addr list" where
  "freeq_Insert h bs [] = [bs]"
| "freeq_Insert h bs (c # cs) =
     (if CompareBS (h c) (h bs) < 0 then c # freeq_Insert h bs cs else bs # c # cs)"

text \<open>
  \<^verbatim>\<open>
  for iter.SeekFirst(); iter.Valid(); iter.Next() {
      node := iter.GetNode()
      bs := (*BarrierSession)(node.Item())
      if bs.seqno != ab.freeSeqno+1 { return }
      ab.freeSeqno++
      ab.callb(bs.objectRef)
      ab.freeq.DeleteNode(node, CompareBS, buf2, &ab.freeq.Stats)
      ab.numFreed++
  }
  \<close>
  The first argument is the part of the queue the iterator has still to visit.
\<close>

fun doCleanup_iter :: "addr list \<Rightarrow> AccessBarrier \<Rightarrow> AccessBarrier" where
  "doCleanup_iter [] ab = ab"
| "doCleanup_iter (node # rest) ab =
     (let bs = sessions ab node in
      if seqno bs \<noteq> freeSeqno ab + 1 then ab
      else doCleanup_iter rest
             (ab\<lparr>freeSeqno := freeSeqno ab + 1,
                 callb := callb ab @ [objectRef bs],
                 freeq := remove1 node (freeq ab),
                 numFreed := numFreed ab + 1\<rparr>))"

definition doCleanup :: "AccessBarrier \<Rightarrow> AccessBarrier" where
  "doCleanup ab = doCleanup_iter (freeq ab) ab"

text \<open>\<^verbatim>\<open>atomic.AddInt32(bs.liveCount, d)\<close>: the new value and the updated barrier.\<close>

definition addLiveCount :: "AccessBarrier \<Rightarrow> addr \<Rightarrow> int32 \<Rightarrow> int32 \<times> AccessBarrier" where
  "addLiveCount ab bs d =
     (let v = liveCount (sessions ab bs) + d
      in (v, ab\<lparr>sessions := (sessions ab)(bs := (sessions ab bs)\<lparr>liveCount := v\<rparr>)\<rparr>))"

definition addClosed :: "AccessBarrier \<Rightarrow> addr \<Rightarrow> int32 \<Rightarrow> int32 \<times> AccessBarrier" where
  "addClosed ab bs d =
     (let v = closed (sessions ab bs) + d
      in (v, ab\<lparr>sessions := (sessions ab)(bs := (sessions ab bs)\<lparr>closed := v\<rparr>)\<rparr>))"

text \<open>
  \<^verbatim>\<open>
  func (ab *AccessBarrier) Release(bs *BarrierSession) {
      if ab.active {
          liveCount := atomic.AddInt32(bs.liveCount, -1)
          if liveCount == barrierFlushOffset {
              ...
              if atomic.AddInt32(&bs.closed, 1) == 1 {
                  ab.freeq.Insert(unsafe.Pointer(bs), CompareBS, buf, &ab.freeq.Stats)
                  if atomic.CompareAndSwapInt32(&ab.isDestructorRunning, 0, 1) {
                      ab.doCleanup()
                      atomic.CompareAndSwapInt32(&ab.isDestructorRunning, 1, 0)
                  }
              }
          } else if liveCount < 0 || liveCount == barrierFlushOffset-1 {
              panic("Unsafe memory reclamation detected")
          }
      }
  }
  \<close>
  The handle is a non-nil session pointer. The panic is the fault \<open>UnsafeReclamation\<close>.
\<close>

definition Release :: "AccessBarrier \<Rightarrow> addr \<Rightarrow> fault + AccessBarrier" where
  "Release ab bs =
     (if active ab then
        (case addLiveCount ab bs (- 1) of (lc, ab1) \<Rightarrow>
           if sint lc = barrierFlushOffset then
             (case addClosed ab1 bs 1 of (cl, ab2) \<Rightarrow>
                if cl = 1 then
                  (let ab3 = ab2\<lparr>freeq := freeq_Insert (sessions ab2) bs (freeq ab2)\<rparr> in
                   if isDestructorRunning ab3 = 0 then
                     (let ab4 = doCleanup (ab3\<lparr>isDestructorRunning := 1\<rparr>) in
                      Inr (if isDestructorRunning ab4 = 1
                           then ab4\<lparr>isDestructorRunning := 0\<rparr> else ab4))
                   else Inr ab3)
                else Inr ab2)
           else if sint lc < 0 \<or> sint lc = barrierFlushOffset - 1 then Inl UnsafeReclamation
           else Inr ab1)
      else Inr ab)"

text \<open>
  \<^verbatim>\<open>
  func (ab *AccessBarrier) Acquire() *BarrierSession {
      if ab.active {
      retry:
          bs := (*BarrierSession)(atomic.LoadPointer(&ab.session))
          liveCount := atomic.AddInt32(bs.liveCount, 1)
          if liveCount > barrierFlushOffset {
              ab.Release(bs)
              goto retry
          }
          return bs
      }
      return nil
  }
  \<close>
  The retry loop need not end, so the function is partial: \<open>None\<close> is a call that
  never returns. A returned handle is \<open>Some bs\<close>, the nil handle is \<open>None\<close>.
\<close>

partial_function (option) Acquire ::
  "AccessBarrier \<Rightarrow> (fault + addr option \<times> AccessBarrier) option" where
  "Acquire ab =
     (if active ab then
        (let bs = session ab in
         case addLiveCount ab bs 1 of (lc, ab1) \<Rightarrow>
           if sint lc > barrierFlushOffset then
             (case Release ab1 bs of
                Inl e \<Rightarrow> Some (Inl e)
              | Inr ab2 \<Rightarrow> Acquire ab2)
           else Some (Inr (Some bs, ab1)))
      else Some (Inr (None, ab)))"

declare Acquire.simps [code]

text \<open>
  \<^verbatim>\<open>
  func (ab *AccessBarrier) FlushSession(ref unsafe.Pointer) {
      if ab.active {
          ab.Lock(); defer ab.Unlock()
          bsPtr := atomic.LoadPointer(&ab.session)
          newBsPtr := unsafe.Pointer(newBarrierSession())
          atomic.CompareAndSwapPointer(&ab.session, bsPtr, newBsPtr)
          bs := (*BarrierSession)(bsPtr)
          bs.objectRef = ref
          ab.activeSeqno++
          bs.seqno = ab.activeSeqno
          ab.numAllocated++
          atomic.AddInt32(bs.liveCount, barrierFlushOffset+1)
          ab.Release(bs)
      }
  }
  \<close>
  Only \<^verbatim>\<open>FlushSession\<close> writes \<^verbatim>\<open>ab.session\<close>, and it does so under the mutex, so the
  swap of the session pointer succeeds.
\<close>

definition FlushSession :: "AccessBarrier \<Rightarrow> nat \<Rightarrow> fault + AccessBarrier" where
  "FlushSession ab ref =
     (if active ab then
        (let bsPtr = session ab;
             newBsPtr = nextAddr ab;
             ab1 = ab\<lparr>sessions := (sessions ab)(newBsPtr := newBarrierSession),
                      nextAddr := nextAddr ab + 1\<rparr>;
             ab2 = ab1\<lparr>session := newBsPtr\<rparr>;
             ab3 = ab2\<lparr>sessions := (sessions ab2)(bsPtr := (sessions ab2 bsPtr)\<lparr>objectRef := ref\<rparr>)\<rparr>;
             ab4 = ab3\<lparr>activeSeqno := activeSeqno ab3 + 1\<rparr>;
             ab5 = ab4\<lparr>sessions := (sessions ab4)(bsPtr := (sessions ab4 bsPtr)\<lparr>seqno := activeSeqno ab4\<rparr>)\<rparr>;
             ab6 = ab5\<lparr>numAllocated := numAllocated ab5 + 1\<rparr>
         in case addLiveCount ab6 bsPtr (word_of_int (barrierFlushOffset + 1)) of
              (lc, ab7) \<Rightarrow> Release ab7 bsPtr)
      else Inr ab)"

subsection \<open>Goroutines inside the barrier, one atomic operation at a time\<close>

text \<open>
  Where a call of \<^verbatim>\<open>Release\<close> returns to: its caller, the \<^verbatim>\<open>retry\<close> label of \<^verbatim>\<open>Acquire\<close>, or
  the deferred \<^verbatim>\<open>Unlock\<close> of \<^verbatim>\<open>FlushSession\<close>.
\<close>

datatype ret = ToCaller | ToAcquire | ToFlush

text \<open>
  The control point of a goroutine, with the local variables alive there. Each point
  is in front of one access to shared memory:
  \<^item> \<open>AcqLoad\<close>: \<^verbatim>\<open>bs := atomic.LoadPointer(&ab.session)\<close>;
  \<^item> \<open>AcqAdd bs\<close>: \<^verbatim>\<open>atomic.AddInt32(bs.liveCount, 1)\<close> and the test against the offset;
  \<^item> \<open>RelDec bs\<close>: \<^verbatim>\<open>atomic.AddInt32(bs.liveCount, -1)\<close> and the tests on the result;
  \<^item> \<open>RelClose bs\<close>: \<^verbatim>\<open>atomic.AddInt32(&bs.closed, 1) == 1\<close>;
  \<^item> \<open>RelInsert bs\<close>: \<^verbatim>\<open>ab.freeq.Insert(bs, ...)\<close>;
  \<^item> \<open>RelCas\<close>: \<^verbatim>\<open>atomic.CompareAndSwapInt32(&ab.isDestructorRunning, 0, 1)\<close>;
  \<^item> \<open>ClSeek\<close>: \<^verbatim>\<open>iter.SeekFirst()\<close>;
  \<^item> \<open>ClCheck it\<close>: \<^verbatim>\<open>iter.Valid()\<close> and \<^verbatim>\<open>bs.seqno != ab.freeSeqno+1\<close>, the iterator
    standing at node \<open>it\<close> or at the end;
  \<^item> \<open>ClAct node\<close>: \<^verbatim>\<open>ab.freeSeqno++\<close>, \<^verbatim>\<open>ab.callb(bs.objectRef)\<close>,
    \<^verbatim>\<open>ab.freeq.DeleteNode(node, ...)\<close>, \<^verbatim>\<open>ab.numFreed++\<close>;
  \<^item> \<open>ClNext\<close>: \<^verbatim>\<open>iter.Next()\<close>;
  \<^item> \<open>RelReset\<close>: \<^verbatim>\<open>atomic.CompareAndSwapInt32(&ab.isDestructorRunning, 1, 0)\<close>;
  \<^item> \<open>FlLock ref\<close>: \<^verbatim>\<open>ab.Lock()\<close>;
  \<^item> \<open>FlLoad ref\<close>: \<^verbatim>\<open>bsPtr := atomic.LoadPointer(&ab.session)\<close>;
  \<^item> \<open>FlSwap bs ref\<close>: \<^verbatim>\<open>newBarrierSession()\<close> and
    \<^verbatim>\<open>atomic.CompareAndSwapPointer(&ab.session, bsPtr, newBsPtr)\<close>;
  \<^item> \<open>FlRef bs ref\<close>: \<^verbatim>\<open>bs.objectRef = ref\<close>;
  \<^item> \<open>FlSeq bs\<close>: \<^verbatim>\<open>ab.activeSeqno++\<close>, \<^verbatim>\<open>bs.seqno = ab.activeSeqno\<close>, \<^verbatim>\<open>ab.numAllocated++\<close>;
  \<^item> \<open>FlBias bs\<close>: \<^verbatim>\<open>atomic.AddInt32(bs.liveCount, barrierFlushOffset+1)\<close>;
  \<^item> \<open>FlUnlock\<close>: the deferred \<^verbatim>\<open>ab.Unlock()\<close>.

  The statements joined in \<open>ClAct\<close> and in \<open>FlSeq\<close> touch \<^verbatim>\<open>freeSeqno\<close>, \<^verbatim>\<open>callb\<close>,
  \<^verbatim>\<open>numFreed\<close>, \<^verbatim>\<open>activeSeqno\<close> and \<^verbatim>\<open>numAllocated\<close>, which no other statement of the
  barrier reads between them; the test of \<open>ClCheck\<close> is a step of its own.
\<close>

datatype pc =
    Idle
  | AcqLoad
  | AcqAdd addr
  | RelDec addr ret
  | RelClose addr ret
  | RelInsert addr ret
  | RelCas ret
  | ClSeek ret
  | ClCheck "addr option" ret
  | ClAct addr ret
  | ClNext ret
  | RelReset ret
  | FlLock nat
  | FlLoad nat
  | FlSwap addr nat
  | FlRef addr nat
  | FlSeq addr
  | FlBias addr
  | FlUnlock

text \<open>
  The barrier shared by the goroutines, the control point of every goroutine, and the
  mutex of the barrier (\<^verbatim>\<open>sync.Mutex\<close>).
\<close>

record sys =
  bar :: AccessBarrier
  pcs :: "nat \<Rightarrow> pc"
  locked :: bool


fun ret_pc :: "ret \<Rightarrow> pc" where
  "ret_pc ToCaller = Idle"
| "ret_pc ToAcquire = AcqLoad"
| "ret_pc ToFlush = FlUnlock"


text \<open>
  What the scheduler does next: an idle goroutine enters a call of the barrier, or a
  goroutine inside a call takes its next step. \<open>CallRelease bs\<close> may pass any session.
\<close>

datatype call = CallAcquire | CallRelease addr | CallFlushSession nat

datatype sched = Call nat call | Step nat "addr option"

fun call_pc :: "call \<Rightarrow> pc" where
  "call_pc CallAcquire = AcqLoad"
| "call_pc (CallRelease bs) = RelDec bs ToCaller"
| "call_pc (CallFlushSession ref) = FlLock ref"



text \<open>
  The goroutine is inside \<^verbatim>\<open>doCleanup\<close> or about to reset the flag
  \<^verbatim>\<open>isDestructorRunning\<close>.
\<close>

fun in_clean :: "pc \<Rightarrow> bool" where
  "in_clean (ClSeek r) = True"
| "in_clean (ClCheck c r) = True"
| "in_clean (ClAct n r) = True"
| "in_clean (ClNext r) = True"
| "in_clean (RelReset r) = True"
| "in_clean _ = False"

text \<open>The goroutine is inside \<^verbatim>\<open>FlushSession\<close> and past \<^verbatim>\<open>ab.Lock()\<close>.\<close>

fun in_flush :: "pc \<Rightarrow> bool" where
  "in_flush (FlLoad ref) = True"
| "in_flush (FlSwap bs ref) = True"
| "in_flush (FlRef bs ref) = True"
| "in_flush (FlSeq bs) = True"
| "in_flush (FlBias bs) = True"
| "in_flush FlUnlock = True"
| "in_flush (RelDec bs r) = (r = ToFlush)"
| "in_flush (RelClose bs r) = (r = ToFlush)"
| "in_flush (RelInsert bs r) = (r = ToFlush)"
| "in_flush (RelCas r) = (r = ToFlush)"
| "in_flush (ClSeek r) = (r = ToFlush)"
| "in_flush (ClCheck c r) = (r = ToFlush)"
| "in_flush (ClAct n r) = (r = ToFlush)"
| "in_flush (ClNext r) = (r = ToFlush)"
| "in_flush (RelReset r) = (r = ToFlush)"
| "in_flush _ = False"


text \<open>What a goroutine at a control point knows of its local variables.\<close>

fun pc_ok :: "AccessBarrier \<Rightarrow> pc \<Rightarrow> bool" where
  "pc_ok ab (AcqAdd bs) \<longleftrightarrow> bs < nextAddr ab"
| "pc_ok ab (RelClose bs r) \<longleftrightarrow> bs < nextAddr ab"
| "pc_ok ab (FlSwap bs ref) \<longleftrightarrow> bs = session ab"
| "pc_ok ab (FlRef bs ref) \<longleftrightarrow>
     seqno (sessions ab bs) = 0 \<and> bs < nextAddr ab \<and> bs \<noteq> session ab"
| "pc_ok ab (FlSeq bs) \<longleftrightarrow>
     seqno (sessions ab bs) = 0 \<and> bs < nextAddr ab \<and> bs \<noteq> session ab"
| "pc_ok ab (FlBias bs) \<longleftrightarrow> bs < nextAddr ab"
| "pc_ok ab (ClAct node r) \<longleftrightarrow> seqno (sessions ab node) = freeSeqno ab + 1"
| "pc_ok ab _ \<longleftrightarrow> True"


text \<open>Example barriers: one with a single live accessor, one with a pending free queue.\<close>

definition barrier_one_reader :: AccessBarrier where
  "barrier_one_reader =
     (newAccessBarrier True)
       \<lparr>sessions := (\<lambda>_. newBarrierSession)(0 := newBarrierSession\<lparr>liveCount := 1\<rparr>)\<rparr>"





section \<open>Lock-free skiplist\<close>

subsection \<open>Items, nodes and the store\<close>

definition MaxLevel :: nat where
  "MaxLevel = 32"

definition p :: real where
  "p = 0.25"

text \<open>
  An \<^verbatim>\<open>Item\<close> is anything with a method \<^verbatim>\<open>Compare(Item) int\<close>. User items are values
  of a type \<open>'a\<close> compared by the caller's comparator \<open>cmp\<close>.

  Modelled from the spec: the type \<^verbatim>\<open>nilItem\<close> of the two sentinel items that \<^verbatim>\<open>New\<close>
  builds (\<^verbatim>\<open>&nilItem{cmp: -1}\<close> and \<^verbatim>\<open>&nilItem{cmp: 1}\<close>) is not among the sources. The
  spec has \<open>MinItem\<close> compare strictly less than and \<open>MaxItem\<close> strictly greater than
  every user item: a \<^verbatim>\<open>nilItem\<close> compares as its field \<^verbatim>\<open>cmp\<close> says.
\<close>

datatype 'a Item = NilItem int | UserItem 'a

definition Compare :: "('a \<Rightarrow> 'a \<Rightarrow> int) \<Rightarrow> 'a Item \<Rightarrow> 'a \<Rightarrow> int" where
  "Compare cmp this that = (case this of NilItem c \<Rightarrow> c | UserItem a \<Rightarrow> cmp a that)"

text \<open>
  A \<^verbatim>\<open>*Node\<close> is \<open>None\<close> (nil) or the address of a node in the store. A slot of
  \<^verbatim>\<open>next []unsafe.Pointer\<close> is nil or points to a \<^verbatim>\<open>NodeRef\<close>; a \<^verbatim>\<open>NodeRef\<close> is
  never modified after it is built, so the slot holds its value.
\<close>

record NodeRef =
  deleted :: bool
  ptr :: "addr option"

record 'a Node =
  nxt :: "NodeRef option list"
  itm :: "'a Item"
  level :: uint16

record 'a Skiplist =
  head :: "addr option"
  tail :: "addr option"
  level :: int32
  nodes :: "addr \<Rightarrow> 'a Node"
  fresh :: addr

text \<open>
  \<^verbatim>\<open>
  func newNode(itm Item, level int) *Node {
      return &Node{ next: make([]unsafe.Pointer, level+1), itm: itm, level: uint16(level) }
  }
  \<close>
  \<^verbatim>\<open>make\<close> panics on a negative length.
\<close>

definition newNode :: "'a Skiplist \<Rightarrow> 'a Item \<Rightarrow> int \<Rightarrow> fault + addr \<times> 'a Skiplist" where
  "newNode s it lvl =
     (if lvl + 1 < 0 then Inl NegativeLength
      else Inr (fresh s,
                s\<lparr>nodes := (nodes s)(fresh s :=
                       \<lparr>nxt = replicate (nat (lvl + 1)) None, itm = it, level = word_of_int lvl\<rparr>),
                  fresh := fresh s + 1\<rparr>))"

text \<open>
  \<^verbatim>\<open>
  func (n *Node) setNext(level int, ptr *Node, deleted bool) {
      n.next[level] = unsafe.Pointer(&NodeRef{ptr: ptr, deleted: deleted})
  }
  func (n *Node) getNext(level int) (*Node, bool) {
      ref := (*NodeRef)(atomic.LoadPointer(&n.next[level]))
      if ref != nil { return ref.ptr, ref.deleted }
      return nil, false
  }
  \<close>
\<close>

definition setNext ::
  "'a Skiplist \<Rightarrow> addr option \<Rightarrow> nat \<Rightarrow> addr option \<Rightarrow> bool \<Rightarrow> fault + 'a Skiplist" where
  "setNext s n lvl pt del =
     (case n of
        None \<Rightarrow> Inl NilDereference
      | Some a \<Rightarrow>
          if lvl < length (nxt (nodes s a))
          then Inr (s\<lparr>nodes := (nodes s)(a := (nodes s a)
                 \<lparr>nxt := (nxt (nodes s a))[lvl := Some \<lparr>deleted = del, ptr = pt\<rparr>]\<rparr>)\<rparr>)
          else Inl IndexOutOfRange)"

definition getNext :: "'a Skiplist \<Rightarrow> addr option \<Rightarrow> nat \<Rightarrow> fault + addr option \<times> bool" where
  "getNext s n lvl =
     (case n of
        None \<Rightarrow> Inl NilDereference
      | Some a \<Rightarrow>
          if lvl < length (nxt (nodes s a))
          then (case nxt (nodes s a) ! lvl of
                  Some ref \<Rightarrow> Inr (ptr ref, deleted ref)
                | None \<Rightarrow> Inr (None, False))
          else Inl IndexOutOfRange)"

text \<open>
  \<^verbatim>\<open>
  func (n *Node) dcasNext(level int, prevPtr, newPtr *Node, prevIsdeleted, newIsdeleted bool) bool {
      var swapped bool
      addr := &n.next[level]
      ref := (*NodeRef)(atomic.LoadPointer(addr))
      if ref != nil {
          if ref.ptr == prevPtr && ref.deleted == prevIsdeleted {
              swapped = atomic.CompareAndSwapPointer(addr, unsafe.Pointer(ref),
                  unsafe.Pointer(&NodeRef{ptr: newPtr, deleted: newIsdeleted}))
          }
      }
      return swapped
  }
  \<close>
  The call is one step of the model: nothing happens between its load and its
  compare-and-swap, so the swap of the reference just loaded succeeds.
\<close>

definition dcasNext ::
  "'a Skiplist \<Rightarrow> addr option \<Rightarrow> nat \<Rightarrow> addr option \<Rightarrow> addr option \<Rightarrow> bool \<Rightarrow> bool
     \<Rightarrow> fault + bool \<times> 'a Skiplist" where
  "dcasNext s n lvl prevPtr newPtr prevIsdeleted newIsdeleted =
     (case n of
        None \<Rightarrow> Inl NilDereference
      | Some a \<Rightarrow>
          if lvl < length (nxt (nodes s a))
          then (case nxt (nodes s a) ! lvl of
                  Some ref \<Rightarrow>
                    if ptr ref = prevPtr \<and> deleted ref = prevIsdeleted
                    then Inr (True, s\<lparr>nodes := (nodes s)(a := (nodes s a)
                           \<lparr>nxt := (nxt (nodes s a))
                                     [lvl := Some \<lparr>deleted = newIsdeleted, ptr = newPtr\<rparr>]\<rparr>)\<rparr>)
                    else Inr (False, s)
                | None \<Rightarrow> Inr (False, s))
          else Inl IndexOutOfRange)"

text \<open>
  \<^verbatim>\<open>
  func New() *Skiplist {
      minItem := &nilItem{cmp: -1}
      maxItem := &nilItem{cmp: 1}
      head := newNode(minItem, MaxLevel)
      tail := newNode(maxItem, MaxLevel)
      for i := 0; i <= MaxLevel; i++ { head.setNext(i, tail, false) }
      s := &Skiplist{head: head, tail: tail}
      return s
  }
  \<close>
  The store of a new skiplist holds the head at address 0 and the tail at address 1.
\<close>

definition New :: "'a Skiplist" where
  "New =
     \<lparr>head = Some 0, tail = Some 1, level = 0,
      nodes = (\<lambda>_. \<lparr>nxt = [], itm = NilItem 0, level = 0\<rparr>)
        (0 := \<lparr>nxt = replicate (MaxLevel + 1) (Some \<lparr>deleted = False, ptr = Some 1\<rparr>),
               itm = NilItem (- 1), level = word_of_nat MaxLevel\<rparr>,
         1 := \<lparr>nxt = replicate (MaxLevel + 1) None,
               itm = NilItem 1, level = word_of_nat MaxLevel\<rparr>),
      fresh = 2\<rparr>"

subsection \<open>Steps of other threads\<close>

text \<open>
  Once a node is linked at level 0 other threads write it in two ways: through
  \<^verbatim>\<open>dcasNext\<close>, always with \<^verbatim>\<open>prevIsdeleted = false\<close>, and, as long as the \<^verbatim>\<open>Insert2\<close>
  that created it is still linking its upper levels, through the plain store
  \<^verbatim>\<open>x.setNext(i, succs[i], false)\<close> of that \<^verbatim>\<open>Insert2\<close>, which overwrites the slot whatever
  it holds. The top level is written only through the compare-and-swap of
  \<^verbatim>\<open>randomLevel\<close>. A step of another thread is one of these three operations.
  Where a claim is about concurrent interference, the steps other threads take at a
  point of a call are a parameter of the call; the empty list is the single-threaded
  execution.
\<close>

datatype env_step =
    EnvDcasNext addr nat "addr option" "addr option" bool
  | EnvCasLevel int32 int32
  | EnvSetNext addr nat "addr option"

fun apply_env_step :: "'a Skiplist \<Rightarrow> env_step \<Rightarrow> 'a Skiplist" where
  "apply_env_step s (EnvDcasNext n lvl prevPtr newPtr newIsdeleted) =
     (case dcasNext s (Some n) lvl prevPtr newPtr False newIsdeleted of
        Inl e \<Rightarrow> s
      | Inr (swapped, s') \<Rightarrow> s')"
| "apply_env_step s (EnvCasLevel old new) =
     (if Skiplist.level s = old then s\<lparr>level := new\<rparr> else s)"
| "apply_env_step s (EnvSetNext n lvl pt) =
     (case setNext s (Some n) lvl pt False of
        Inl e \<Rightarrow> s
      | Inr s' \<Rightarrow> s')"

text \<open>The step is a plain store of another thread into a slot of node \<open>d\<close>.\<close>

fun stores_to :: "addr \<Rightarrow> env_step \<Rightarrow> bool" where
  "stores_to d (EnvSetNext n lvl pt) \<longleftrightarrow> n = d"
| "stores_to d (EnvDcasNext n lvl prevPtr newPtr newIsdeleted) \<longleftrightarrow> False"
| "stores_to d (EnvCasLevel old new) \<longleftrightarrow> False"

definition env_steps :: "'a Skiplist \<Rightarrow> env_step list \<Rightarrow> 'a Skiplist" where
  "env_steps s es = foldl apply_env_step s es"

text \<open>
  The atomic operations a call performs, in program order: a compare-and-swap of the
  top level (old value, new value, outcome), a marking compare-and-swap of \<^verbatim>\<open>Delete\<close>
  (level, outcome), a call of \<^verbatim>\<open>findPath\<close> (its result \<^verbatim>\<open>found\<close>).
\<close>

datatype event =
    EvCasLevel int32 int32 bool
  | EvMarkCas nat bool
  | EvFindPath bool

subsection \<open>Random level\<close>

text \<open>
  \<^verbatim>\<open>
  func (s *Skiplist) randomLevel(randFn func() float32) int {
      var nextLevel int
      for ; randFn() < p; nextLevel++ { }
      if nextLevel > MaxLevel { nextLevel = MaxLevel }
      level := int(atomic.LoadInt32(&s.level))
      if nextLevel > level {
          atomic.CompareAndSwapInt32(&s.level, int32(level), int32(level+1))
          nextLevel = level + 1
      }
      return nextLevel
  }
  \<close>
  The injected generator is the sequence of its samples: \<open>randFn k\<close> is what the
  \<open>k\<close>-th call returns. The loop runs as long as the samples stay below \<open>p\<close>, so it
  need not end. The loop counter is not bounded in the model: the model is of runs with
  fewer than \<open>2^63\<close> samples in a row below \<open>p\<close>.
\<close>

partial_function (option) randomLevel_loop :: "(nat \<Rightarrow> real) \<Rightarrow> nat \<Rightarrow> nat option" where
  "randomLevel_loop randFn nextLevel =
     (if randFn nextLevel < p then randomLevel_loop randFn (nextLevel + 1)
      else Some nextLevel)"

declare randomLevel_loop.simps [code]

text \<open>
  \<open>env\<close> are the steps of other threads between the load of \<^verbatim>\<open>s.level\<close> and the
  compare-and-swap. The result is the level, the skiplist and the compare-and-swaps made.
\<close>

definition randomLevel ::
  "'a Skiplist \<Rightarrow> (nat \<Rightarrow> real) \<Rightarrow> env_step list \<Rightarrow> (int \<times> 'a Skiplist \<times> event list) option" where
  "randomLevel s randFn env =
     (case randomLevel_loop randFn 0 of
        None \<Rightarrow> None
      | Some k \<Rightarrow>
          (let nextLevel = (if k > MaxLevel then int MaxLevel else int k);
               lvl = sint (Skiplist.level s)
           in if nextLevel > lvl then
                (let s1 = env_steps s env;
                     old = (word_of_int lvl :: int32);
                     new = (word_of_int (lvl + 1) :: int32);
                     swapped = (Skiplist.level s1 = old);
                     s2 = (if swapped then s1\<lparr>level := new\<rparr> else s1)
                 in Some (lvl + 1, s2, [EvCasLevel old new swapped]))
              else Some (nextLevel, s, [])))"

subsection \<open>findPath\<close>

text \<open>
  \<^verbatim>\<open>
  func (s *Skiplist) helpDelete(level int, prev, curr, next *Node) bool {
      return prev.dcasNext(level, curr, next, false, false)
  }
  \<close>
\<close>

definition helpDelete ::
  "'a Skiplist \<Rightarrow> nat \<Rightarrow> addr option \<Rightarrow> addr option \<Rightarrow> addr option \<Rightarrow> fault + bool \<times> 'a Skiplist" where
  "helpDelete s lvl prev cur next_node = dcasNext s prev lvl cur next_node False False"

text \<open>
  \<^verbatim>\<open>
  retry:
      prev := s.head
      level := int(atomic.LoadInt32(&s.level))
      for i := level; i >= 0; i-- {
          curr, _ := prev.getNext(i)
      levelSearch:
          for {
              next, deleted := curr.getNext(i)
              for deleted {
                  if !s.helpDelete(i, prev, curr, next) { goto retry }
                  curr, _ = prev.getNext(i)
                  next, deleted = curr.getNext(i)
              }
              cmpVal = curr.itm.Compare(itm)
              if cmpVal < 0 { prev = curr; curr, _ = prev.getNext(i) }
              else { break levelSearch }
          }
          preds[i] = prev
          succs[i] = curr
      }
      if cmpVal == 0 { found = true }
      return
  \<close>
  The search of one level is \<open>levelSearch\<close>; it starts with the load of
  \<^verbatim>\<open>curr.getNext(i)\<close>, where both the outer and the inner loop of the source arrive after
  they have set \<^verbatim>\<open>curr\<close>. It ends with \<open>Retry\<close> (the \<^verbatim>\<open>goto retry\<close>) or with \<open>Stop\<close> (the
  \<^verbatim>\<open>break levelSearch\<close>), and carries \<^verbatim>\<open>cmpVal\<close>, which the source keeps across levels
  and retries. None of the loops need end.
\<close>

datatype 'a search =
    Retry "'a Skiplist" int
  | Stop "'a Skiplist" "addr option" "addr option" int

partial_function (option) levelSearch ::
  "('a \<Rightarrow> 'a \<Rightarrow> int) \<Rightarrow> 'a \<Rightarrow> nat \<Rightarrow> 'a Skiplist \<Rightarrow> addr option \<Rightarrow> addr option \<Rightarrow> int
     \<Rightarrow> (fault + 'a search) option" where
  "levelSearch cmp it i s prev cur cmpVal =
     (case getNext s cur i of
        Inl e \<Rightarrow> Some (Inl e)
      | Inr (next_node, del) \<Rightarrow>
          if del then
            (case helpDelete s i prev cur next_node of
               Inl e \<Rightarrow> Some (Inl e)
             | Inr (swapped, s') \<Rightarrow>
                 if \<not> swapped then Some (Inr (Retry s' cmpVal))
                 else (case getNext s' prev i of
                         Inl e \<Rightarrow> Some (Inl e)
                       | Inr (cur', _) \<Rightarrow> levelSearch cmp it i s' prev cur' cmpVal))
          else
            (case cur of
               None \<Rightarrow> Some (Inl NilDereference)
             | Some c \<Rightarrow>
                 (let cmpVal' = Compare cmp (itm (nodes s c)) it
                  in if cmpVal' < 0 then
                       (case getNext s cur i of
                          Inl e \<Rightarrow> Some (Inl e)
                        | Inr (cur', _) \<Rightarrow> levelSearch cmp it i s cur cur' cmpVal')
                     else Some (Inr (Stop s prev cur cmpVal')))))"

declare levelSearch.simps [code]

text \<open>
  One pass over the levels: \<open>findPath_levels \<dots> n\<close> runs the levels \<open>n - 1\<close> down to 0.
  It ends with \<open>Again\<close> (the \<^verbatim>\<open>goto retry\<close>) or \<open>Done\<close>. The arrays \<^verbatim>\<open>preds\<close> and \<^verbatim>\<open>succs\<close>
  have \<open>MaxLevel + 1\<close> slots; a write beyond them panics.
\<close>

datatype 'a pass =
    Again "'a Skiplist" "addr option list" "addr option list" int
  | Done "'a Skiplist" "addr option list" "addr option list" int

fun findPath_levels ::
  "('a \<Rightarrow> 'a \<Rightarrow> int) \<Rightarrow> 'a \<Rightarrow> 'a Skiplist \<Rightarrow> nat \<Rightarrow> addr option
     \<Rightarrow> addr option list \<Rightarrow> addr option list \<Rightarrow> int \<Rightarrow> (fault + 'a pass) option" where
  "findPath_levels cmp it s 0 prev preds succs cmpVal = Some (Inr (Done s preds succs cmpVal))"
| "findPath_levels cmp it s (Suc i) prev preds succs cmpVal =
     (case getNext s prev i of
        Inl e \<Rightarrow> Some (Inl e)
      | Inr (cur, _) \<Rightarrow>
          (case levelSearch cmp it i s prev cur cmpVal of
             None \<Rightarrow> None
           | Some (Inl e) \<Rightarrow> Some (Inl e)
           | Some (Inr (Retry s' cmpVal')) \<Rightarrow> Some (Inr (Again s' preds succs cmpVal'))
           | Some (Inr (Stop s' prev' cur' cmpVal')) \<Rightarrow>
               if i < length preds \<and> i < length succs
               then findPath_levels cmp it s' i prev' (preds[i := prev']) (succs[i := cur']) cmpVal'
               else Some (Inl IndexOutOfRange)))"

partial_function (option) findPath_retry ::
  "('a \<Rightarrow> 'a \<Rightarrow> int) \<Rightarrow> 'a \<Rightarrow> 'a Skiplist \<Rightarrow> addr option list \<Rightarrow> addr option list \<Rightarrow> int
     \<Rightarrow> (fault + 'a Skiplist \<times> addr option list \<times> addr option list \<times> bool) option" where
  "findPath_retry cmp it s preds succs cmpVal =
     (case findPath_levels cmp it s (nat (sint (Skiplist.level s) + 1)) (head s) preds succs cmpVal of
        None \<Rightarrow> None
      | Some (Inl e) \<Rightarrow> Some (Inl e)
      | Some (Inr (Again s' preds' succs' cmpVal')) \<Rightarrow>
          findPath_retry cmp it s' preds' succs' cmpVal'
      | Some (Inr (Done s' preds' succs' cmpVal')) \<Rightarrow>
          Some (Inr (s', preds', succs', cmpVal' = 0)))"

declare findPath_retry.simps [code]

definition findPath ::
  "('a \<Rightarrow> 'a \<Rightarrow> int) \<Rightarrow> 'a Skiplist \<Rightarrow> 'a
     \<Rightarrow> (fault + 'a Skiplist \<times> addr option list \<times> addr option list \<times> bool) option" where
  "findPath cmp s it =
     findPath_retry cmp it s (replicate (MaxLevel + 1) None) (replicate (MaxLevel + 1) None) 1"

subsection \<open>Insert\<close>

text \<open>
  \<^verbatim>\<open>
  func (s *Skiplist) Insert2(itm Item, randFn func() float32) {
      itemLevel := s.randomLevel(randFn)
      x := newNode(itm, itemLevel)
  retry:
      preds, succs, _ := s.findPath(itm)
      x.setNext(0, succs[0], false)
      if !preds[0].dcasNext(0, succs[0], x, false, false) { goto retry }
      for i := 1; i <= int(itemLevel); i++ {
      fixThisLevel:
          for {
              x.setNext(i, succs[i], false)
              if preds[i].dcasNext(i, succs[i], x, false, false) { break fixThisLevel }
              preds, succs, _ = s.findPath(itm)
          }
      }
  }
  \<close>
\<close>

partial_function (option) Insert2_level0 ::
  "('a \<Rightarrow> 'a \<Rightarrow> int) \<Rightarrow> 'a \<Rightarrow> addr \<Rightarrow> 'a Skiplist
     \<Rightarrow> (fault + 'a Skiplist \<times> addr option list \<times> addr option list) option" where
  "Insert2_level0 cmp it x s =
     (case findPath cmp s it of
        None \<Rightarrow> None
      | Some (Inl e) \<Rightarrow> Some (Inl e)
      | Some (Inr (s1, preds, succs, _)) \<Rightarrow>
          if 0 < length preds \<and> 0 < length succs then
            (case setNext s1 (Some x) 0 (succs ! 0) False of
               Inl e \<Rightarrow> Some (Inl e)
             | Inr s2 \<Rightarrow>
                 (case dcasNext s2 (preds ! 0) 0 (succs ! 0) (Some x) False False of
                    Inl e \<Rightarrow> Some (Inl e)
                  | Inr (swapped, s3) \<Rightarrow>
                      if \<not> swapped then Insert2_level0 cmp it x s3
                      else Some (Inr (s3, preds, succs))))
          else Some (Inl IndexOutOfRange))"

declare Insert2_level0.simps [code]

partial_function (option) Insert2_fixThisLevel ::
  "('a \<Rightarrow> 'a \<Rightarrow> int) \<Rightarrow> 'a \<Rightarrow> addr \<Rightarrow> nat \<Rightarrow> 'a Skiplist \<Rightarrow> addr option list \<Rightarrow> addr option list
     \<Rightarrow> (fault + 'a Skiplist \<times> addr option list \<times> addr option list) option" where
  "Insert2_fixThisLevel cmp it x i s preds succs =
     (if i < length preds \<and> i < length succs then
        (case setNext s (Some x) i (succs ! i) False of
           Inl e \<Rightarrow> Some (Inl e)
         | Inr s1 \<Rightarrow>
             (case dcasNext s1 (preds ! i) i (succs ! i) (Some x) False False of
                Inl e \<Rightarrow> Some (Inl e)
              | Inr (swapped, s2) \<Rightarrow>
                  if swapped then Some (Inr (s2, preds, succs))
                  else (case findPath cmp s2 it of
                          None \<Rightarrow> None
                        | Some (Inl e) \<Rightarrow> Some (Inl e)
                        | Some (Inr (s3, preds', succs', _)) \<Rightarrow>
                            Insert2_fixThisLevel cmp it x i s3 preds' succs')))
      else Some (Inl IndexOutOfRange))"

declare Insert2_fixThisLevel.simps [code]

text \<open>The loop over the levels \<open>i, i + 1, \<dots>, i + n - 1\<close>.\<close>

fun Insert2_levels ::
  "('a \<Rightarrow> 'a \<Rightarrow> int) \<Rightarrow> 'a \<Rightarrow> addr \<Rightarrow> nat \<Rightarrow> nat \<Rightarrow> 'a Skiplist \<Rightarrow> addr option list
     \<Rightarrow> addr option list \<Rightarrow> (fault + 'a Skiplist) option" where
  "Insert2_levels cmp it x i 0 s preds succs = Some (Inr s)"
| "Insert2_levels cmp it x i (Suc n) s preds succs =
     (case Insert2_fixThisLevel cmp it x i s preds succs of
        None \<Rightarrow> None
      | Some (Inl e) \<Rightarrow> Some (Inl e)
      | Some (Inr (s', preds', succs')) \<Rightarrow> Insert2_levels cmp it x (Suc i) n s' preds' succs')"

definition Insert2 ::
  "('a \<Rightarrow> 'a \<Rightarrow> int) \<Rightarrow> 'a Skiplist \<Rightarrow> 'a \<Rightarrow> (nat \<Rightarrow> real) \<Rightarrow> (fault + 'a Skiplist) option" where
  "Insert2 cmp s it randFn =
     (case randomLevel s randFn [] of
        None \<Rightarrow> None
      | Some (itemLevel, s1, _) \<Rightarrow>
          (case newNode s1 (UserItem it) itemLevel of
             Inl e \<Rightarrow> Some (Inl e)
           | Inr (x, s2) \<Rightarrow>
               (case Insert2_level0 cmp it x s2 of
                  None \<Rightarrow> None
                | Some (Inl e) \<Rightarrow> Some (Inl e)
                | Some (Inr (s3, preds, succs)) \<Rightarrow>
                    Insert2_levels cmp it x 1 (nat itemLevel) s3 preds succs)))"

subsection \<open>Delete\<close>

text \<open>
  \<^verbatim>\<open>
  func (s *Skiplist) Delete(itm Item) {
      var deleteMarked bool
      _, succs, found := s.findPath(itm)
      if !found { return }
      delNode := succs[0]
      targetLevel := int(delNode.level)
      for i := targetLevel; i >= 0; i-- {
          next, deleted := delNode.getNext(i)
          for !deleted {
              deleteMarked = delNode.dcasNext(i, next, next, false, true)
              next, deleted = delNode.getNext(i)
          }
      }
      if deleteMarked { s.findPath(itm) }
  }
  \<close>
  \<open>sched\<close> lists, for the first, second, \<dots> marking compare-and-swap of the call, the steps
  other threads take between the load of \<^verbatim>\<open>delNode.getNext(i)\<close> and that
  compare-and-swap; beyond its end no other thread interferes.
\<close>

partial_function (option) Delete_mark ::
  "'a Skiplist \<Rightarrow> addr option \<Rightarrow> nat \<Rightarrow> addr option \<Rightarrow> bool \<Rightarrow> env_step list list \<Rightarrow> bool
     \<Rightarrow> event list \<Rightarrow> (fault + 'a Skiplist \<times> env_step list list \<times> bool \<times> event list) option" where
  "Delete_mark s delNode i next_node del sched deleteMarked evs =
     (if \<not> del then
        (let s1 = env_steps s (case sched of [] \<Rightarrow> [] | es # _ \<Rightarrow> es);
             sched' = (case sched of [] \<Rightarrow> [] | _ # rest \<Rightarrow> rest)
         in case dcasNext s1 delNode i next_node next_node False True of
              Inl e \<Rightarrow> Some (Inl e)
            | Inr (swapped, s2) \<Rightarrow>
                (case getNext s2 delNode i of
                   Inl e \<Rightarrow> Some (Inl e)
                 | Inr (next_node', del') \<Rightarrow>
                     Delete_mark s2 delNode i next_node' del' sched' swapped
                       (evs @ [EvMarkCas i swapped])))
      else Some (Inr (s, sched, deleteMarked, evs)))"

declare Delete_mark.simps [code]

text \<open>The loop over the levels \<open>n - 1\<close> down to 0.\<close>

fun Delete_levels ::
  "'a Skiplist \<Rightarrow> addr option \<Rightarrow> nat \<Rightarrow> env_step list list \<Rightarrow> bool \<Rightarrow> event list
     \<Rightarrow> (fault + 'a Skiplist \<times> env_step list list \<times> bool \<times> event list) option" where
  "Delete_levels s delNode 0 sched deleteMarked evs = Some (Inr (s, sched, deleteMarked, evs))"
| "Delete_levels s delNode (Suc i) sched deleteMarked evs =
     (case getNext s delNode i of
        Inl e \<Rightarrow> Some (Inl e)
      | Inr (next_node, del) \<Rightarrow>
          (case Delete_mark s delNode i next_node del sched deleteMarked evs of
             None \<Rightarrow> None
           | Some (Inl e) \<Rightarrow> Some (Inl e)
           | Some (Inr (s', sched', deleteMarked', evs')) \<Rightarrow>
               Delete_levels s' delNode i sched' deleteMarked' evs'))"

text \<open>
  What a Go call hands back to its caller. \<^verbatim>\<open>Delete\<close> is declared without a result.
\<close>

datatype go_result = NoResult | BoolResult bool

definition Delete ::
  "('a \<Rightarrow> 'a \<Rightarrow> int) \<Rightarrow> 'a Skiplist \<Rightarrow> 'a \<Rightarrow> env_step list list
     \<Rightarrow> (fault + go_result \<times> 'a Skiplist \<times> event list) option" where
  "Delete cmp s it sched =
     (case findPath cmp s it of
        None \<Rightarrow> None
      | Some (Inl e) \<Rightarrow> Some (Inl e)
      | Some (Inr (s1, _, succs, found)) \<Rightarrow>
          if \<not> found then Some (Inr (NoResult, s1, [EvFindPath found]))
          else if 0 < length succs then
            (case succs ! 0 of
               None \<Rightarrow> Some (Inl NilDereference)
             | Some d \<Rightarrow>
                 (let targetLevel = unat (Node.level (nodes s1 d))
                  in case Delete_levels s1 (Some d) (Suc targetLevel) sched False [EvFindPath found] of
                       None \<Rightarrow> None
                     | Some (Inl e) \<Rightarrow> Some (Inl e)
                     | Some (Inr (s2, _, deleteMarked, evs)) \<Rightarrow>
                         if deleteMarked then
                           (case findPath cmp s2 it of
                              None \<Rightarrow> None
                            | Some (Inl e) \<Rightarrow> Some (Inl e)
                            | Some (Inr (s3, _, _, found')) \<Rightarrow>
                                Some (Inr (NoResult, s3, evs @ [EvFindPath found'])))
                         else Some (Inr (NoResult, s2, evs))))
          else Some (Inl IndexOutOfRange))"

subsection \<open>Observations and examples\<close>

text \<open>The outgoing edge of node \<open>d\<close> at level \<open>i\<close> is marked deleted.\<close>

definition marked :: "'a Skiplist \<Rightarrow> addr \<Rightarrow> nat \<Rightarrow> bool" where
  "marked s d i \<longleftrightarrow>
     i < length (nxt (nodes s d)) \<and>
     (case nxt (nodes s d) ! i of None \<Rightarrow> False | Some ref \<Rightarrow> deleted ref)"

text \<open>An event is a marking compare-and-swap; it is one that succeeded.\<close>

definition is_mark :: "event \<Rightarrow> bool" where
  "is_mark e = (case e of EvMarkCas i b \<Rightarrow> True | _ \<Rightarrow> False)"

definition mark_ok :: "event \<Rightarrow> bool" where
  "mark_ok e = (case e of EvMarkCas i b \<Rightarrow> b | _ \<Rightarrow> False)"

fun search_state :: "'a search \<Rightarrow> 'a Skiplist" where
  "search_state (Retry s c) = s"
| "search_state (Stop s a b c) = s"

fun pass_state :: "'a pass \<Rightarrow> 'a Skiplist" where
  "pass_state (Again s a b c) = s"
| "pass_state (Done s a b c) = s"

text \<open>
  Integer keys compared by subtraction, and the skiplist that holds the single key 5 in
  a node of level 1 at address 2.
\<close>

definition cmp_int :: "int \<Rightarrow> int \<Rightarrow> int" where
  "cmp_int a b = a - b"

definition skiplist_5 :: "int Skiplist" where
  "skiplist_5 =
     New\<lparr>level := 1,
         nodes := (nodes New)
           (0 := (nodes New 0)\<lparr>nxt := (nxt (nodes (New :: int Skiplist) 0))
                    [0 := Some \<lparr>deleted = False, ptr = Some 2\<rparr>,
                     1 := Some \<lparr>deleted = False, ptr = Some 2\<rparr>]\<rparr>,
            2 := \<lparr>nxt = [Some \<lparr>deleted = False, ptr = Some 1\<rparr>,
                          Some \<lparr>deleted = False, ptr = Some 1\<rparr>],
                   itm = UserItem 5, level = 1\<rparr>),
         fresh := 3\<rparr>"

text \<open>
  A skiplist caught in the middle of an \<^verbatim>\<open>Insert2\<close> of key 5: its node (address 2, level
  1) is linked at level 0 and has its level-1 slot set, but is not yet linked at level
  1, where meanwhile another thread has linked key 3 (address 3) after the head.
\<close>

definition skiplist_3_5_linking :: "int Skiplist" where
  "skiplist_3_5_linking =
     New\<lparr>level := 1,
         nodes := (nodes New)
           (0 := (nodes New 0)\<lparr>nxt := (nxt (nodes (New :: int Skiplist) 0))
                    [0 := Some \<lparr>deleted = False, ptr = Some 3\<rparr>,
                     1 := Some \<lparr>deleted = False, ptr = Some 3\<rparr>]\<rparr>,
            3 := \<lparr>nxt = [Some \<lparr>deleted = False, ptr = Some 2\<rparr>,
                          Some \<lparr>deleted = False, ptr = Some 1\<rparr>],
                   itm = UserItem 3, level = 1\<rparr>,
            2 := \<lparr>nxt = [Some \<lparr>deleted = False, ptr = Some 1\<rparr>,
                          Some \<lparr>deleted = False, ptr = Some 1\<rparr>],
                   itm = UserItem 5, level = 1\<rparr>),
         fresh := 4\<rparr>"

subsection \<open>The skiplist as a sorted list of entries\<close>

text \<open>
  An entry stands for a node between head and tail: its address, the item it holds and
  its level. The chain of level \<open>i\<close> through a list of entries is the addresses of the
  entries of level at least \<open>i\<close>, in the order of the list.
\<close>

type_synonym 'a entry = "addr \<times> 'a \<times> nat"

definition chain_at :: "nat \<Rightarrow> 'a entry list \<Rightarrow> addr list" where
  "chain_at i xs = map fst (filter (\<lambda>e. i \<le> snd (snd e)) xs)"

text \<open>
  Slot \<open>i\<close> of node \<open>a\<close> points to node \<open>n\<close> and is marked as \<open>mk\<close> says. A path at level
  \<open>i\<close> runs through the nodes of a list, in order, and ends in \<open>b\<close>.
\<close>

definition cell :: "'a Skiplist \<Rightarrow> nat \<Rightarrow> (addr \<Rightarrow> bool) \<Rightarrow> addr \<Rightarrow> addr \<Rightarrow> bool" where
  "cell s i mk a n \<longleftrightarrow>
     i < length (nxt (nodes s a)) \<and>
     nxt (nodes s a) ! i = Some \<lparr>deleted = mk a, ptr = Some n\<rparr>"

fun path :: "'a Skiplist \<Rightarrow> nat \<Rightarrow> (addr \<Rightarrow> bool) \<Rightarrow> addr list \<Rightarrow> addr \<Rightarrow> bool" where
  "path s i mk [] b \<longleftrightarrow> True"
| "path s i mk (a # cs) b \<longleftrightarrow> cell s i mk a (hd (cs @ [b])) \<and> path s i mk cs b"

text \<open>
  The store holds the head at address 0, the tail at address 1 and the nodes of the
  entries at distinct addresses below \<open>fresh\<close>, each with its item, its level and
  \<open>level + 1\<close> slots, no level above the top level of the skiplist.
\<close>

definition nodes_ok :: "'a Skiplist \<Rightarrow> 'a entry list \<Rightarrow> bool" where
  "nodes_ok s xs \<longleftrightarrow>
     head s = Some 0 \<and> tail s = Some 1 \<and> 2 \<le> fresh s \<and>
     0 \<le> sint (Skiplist.level s) \<and> sint (Skiplist.level s) \<le> int MaxLevel \<and>
     length (nxt (nodes s 0)) = MaxLevel + 1 \<and>
     nxt (nodes s 1) = replicate (MaxLevel + 1) None \<and>
     itm (nodes s 1) = NilItem 1 \<and>
     distinct (map fst xs) \<and>
     (\<forall>(n, v, l) \<in> set xs.
        2 \<le> n \<and> n < fresh s \<and> itm (nodes s n) = UserItem v \<and>
        unat (Node.level (nodes s n)) = l \<and> length (nxt (nodes s n)) = l + 1 \<and>
        int l \<le> sint (Skiplist.level s))"

text \<open>
  The skiplist holds the entries \<open>A @ E @ B\<close>, where the entries \<open>E\<close> are linked at the levels
  below \<open>k\<close> only: an entry being inserted (linked from the bottom up) or a marked
  entry being unlinked by \<^verbatim>\<open>findPath\<close> (from the top down). A stable skiplist holds
  its entries at all their levels and has no mark.
\<close>

definition linked ::
  "'a Skiplist \<Rightarrow> (addr \<Rightarrow> bool) \<Rightarrow> 'a entry list \<Rightarrow> 'a entry list \<Rightarrow> 'a entry list \<Rightarrow> nat \<Rightarrow> bool" where
  "linked s mk A E B k \<longleftrightarrow>
     nodes_ok s (A @ E @ B) \<and>
     (\<forall>i\<le>MaxLevel. path s i mk (0 # chain_at i (if i < k then A @ E @ B else A @ B)) 1)"

definition stable :: "'a Skiplist \<Rightarrow> 'a entry list \<Rightarrow> bool" where
  "stable s xs \<longleftrightarrow> linked s (\<lambda>_. False) xs [] [] 0"

text \<open>The store after slot \<open>i\<close> of node \<open>a\<close> has been set to the reference \<open>r\<close>.\<close>

definition set_slot :: "'a Skiplist \<Rightarrow> addr \<Rightarrow> nat \<Rightarrow> NodeRef \<Rightarrow> 'a Skiplist" where
  "set_slot s a i r =
     s\<lparr>nodes := (nodes s)(a := (nodes s a)\<lparr>nxt := (nxt (nodes s a))[i := Some r]\<rparr>)\<rparr>"

text \<open>The item of node \<open>a\<close> compares below \<open>it\<close>; so does the item of an entry.\<close>

definition less_it :: "('a \<Rightarrow> 'a \<Rightarrow> int) \<Rightarrow> 'a \<Rightarrow> 'a Skiplist \<Rightarrow> addr \<Rightarrow> bool" where
  "less_it cmp it s a \<longleftrightarrow> Compare cmp (itm (nodes s a)) it < 0"

definition key_below :: "('a \<Rightarrow> 'a \<Rightarrow> int) \<Rightarrow> 'a \<Rightarrow> 'a entry \<Rightarrow> bool" where
  "key_below cmp it e \<longleftrightarrow> cmp (fst (snd e)) it < 0"

definition key_le :: "('a \<Rightarrow> 'a \<Rightarrow> int) \<Rightarrow> 'a entry \<Rightarrow> 'a entry \<Rightarrow> bool" where
  "key_le cmp a b \<longleftrightarrow> cmp (fst (snd a)) (fst (snd b)) \<le> 0"

subsection \<open>Single-threaded use and the level-0 chain\<close>

text \<open>
  The comparator of the caller orders the items: \<open>a\<close> is below \<open>b\<close> exactly when \<open>b\<close> is
  above \<open>a\<close>, and being not above is transitive.
\<close>

definition total_order_cmp :: "('a \<Rightarrow> 'a \<Rightarrow> int) \<Rightarrow> bool" where
  "total_order_cmp cmp \<longleftrightarrow>
     (\<forall>a b. cmp a b < 0 \<longleftrightarrow> 0 < cmp b a) \<and>
     (\<forall>a b c. cmp a b \<le> 0 \<longrightarrow> cmp b c \<le> 0 \<longrightarrow> cmp a c \<le> 0)"

text \<open>
  The items met along level 0 from the node after the head up to the tail, a node
  whose level-0 edge is marked deleted being left out. The walk need not end in a
  store that is not a skiplist, so the function is partial.
\<close>

partial_function (option) level0_from ::
  "'a Skiplist \<Rightarrow> addr option \<Rightarrow> (fault + 'a Item list) option" where
  "level0_from s cur =
     (if cur = tail s then Some (Inr [])
      else case cur of
             None \<Rightarrow> Some (Inl NilDereference)
           | Some a \<Rightarrow>
               (case getNext s cur 0 of
                  Inl e \<Rightarrow> Some (Inl e)
                | Inr (next_node, del) \<Rightarrow>
                    Option.bind (level0_from s next_node)
                      (\<lambda>r. case r of
                             Inl e \<Rightarrow> Some (Inl e)
                           | Inr xs \<Rightarrow>
                               Some (Inr (if del then xs else itm (nodes s a) # xs)))))"

declare level0_from.simps [code]

definition level0_items :: "'a Skiplist \<Rightarrow> (fault + 'a Item list) option" where
  "level0_items s =
     (case getNext s (head s) 0 of
        Inl e \<Rightarrow> Some (Inl e)
      | Inr (first, _) \<Rightarrow> level0_from s first)"

text \<open>
  A single-threaded client: inserts, each with the samples its random generator
  returns, and deletes, one call after the other with no other thread taking a step.
  The run stops at the first fault, and is \<open>None\<close> if a call does not return.
\<close>

datatype 'a skiplist_op = OpInsert 'a "nat \<Rightarrow> real" | OpDelete 'a

fun run_skiplist_op ::
  "('a \<Rightarrow> 'a \<Rightarrow> int) \<Rightarrow> 'a Skiplist \<Rightarrow> 'a skiplist_op \<Rightarrow> (fault + 'a Skiplist) option" where
  "run_skiplist_op cmp s (OpInsert it randFn) = Insert2 cmp s it randFn"
| "run_skiplist_op cmp s (OpDelete it) =
     (case Delete cmp s it [] of
        None \<Rightarrow> None
      | Some (Inl e) \<Rightarrow> Some (Inl e)
      | Some (Inr (_, s', _)) \<Rightarrow> Some (Inr s'))"

fun run_skiplist_ops ::
  "('a \<Rightarrow> 'a \<Rightarrow> int) \<Rightarrow> 'a Skiplist \<Rightarrow> 'a skiplist_op list \<Rightarrow> (fault + 'a Skiplist) option" where
  "run_skiplist_ops cmp s [] = Some (Inr s)"
| "run_skiplist_ops cmp s (opn # ops) =
     (case run_skiplist_op cmp s opn of
        None \<Rightarrow> None
      | Some (Inl e) \<Rightarrow> Some (Inl e)
      | Some (Inr s') \<Rightarrow> run_skiplist_ops cmp s' ops)"

text \<open>The random generator of an insert returns, at some call, a sample not below \<open>p\<close>.\<close>

fun rand_stops :: "'a skiplist_op \<Rightarrow> bool" where
  "rand_stops (OpInsert it randFn) \<longleftrightarrow> (\<exists>n. \<not> randFn n < p)"
| "rand_stops (OpDelete it) \<longleftrightarrow> True"

section \<open>Properties of the allocator facade\<close>

text \<open>
  C3, counterexample. With \<open>curregs = 3\<close>, \<open>curslabs = 1\<close>, \<open>nregs = 1\<close> the quotient is
  300 and the unsigned subtraction \<open>100 - 300\<close> wraps: the result is \<open>2^64 - 200\<close>,
  far above 100. Nothing in the code clamps it.
\<close>

theorem computeBinFrag_not_clamped:
  "computeBinFrag 3 1 1 = Inr 18446744073709551416 \<and>
   (100::nat) < unat (18446744073709551416 :: uint64)"
  by (simp add: computeBinFrag_def)

text \<open>
  C3, as amended. When \<open>curslabs\<close> or \<open>nregs\<close> is zero the result is 0. When both are
  positive, neither \<open>curslabs * nregs\<close> nor \<open>100 * curregs\<close> overflows 64 bits and
  \<open>curregs\<close> is at most \<open>curslabs * nregs\<close>, the result is
  \<open>100 - (100 * curregs) div (curslabs * nregs)\<close> and lies between 0 and 100.
  In particular \<open>(75, 5, 20)\<close> gives 25.
\<close>

theorem computeBinFrag_formula:
  assumes "0 < curslabs \<and> 0 < nregs \<longrightarrow>
             unat curslabs * unat nregs < 2 ^ 64 \<and> 100 * unat curregs < 2 ^ 64 \<and>
             unat curregs \<le> unat curslabs * unat nregs"
  shows "\<exists>r. computeBinFrag curregs curslabs nregs = Inr r \<and>
           unat r = (if 0 < curslabs \<and> 0 < nregs
                     then 100 - (100 * unat curregs) div (unat curslabs * unat nregs)
                     else 0) \<and>
           unat r \<le> 100 \<and>
           computeBinFrag 75 5 20 = Inr 25"
proof (cases "0 < curslabs \<and> 0 < nregs")
  case False
  then have "curslabs = 0 \<or> nregs = 0"
    by (simp add: word_greater_zero_iff)
  then show ?thesis
    by (auto simp: computeBinFrag_def)
next
  case True
  with assms have nov: "unat curslabs * unat nregs < 2 ^ 64"
    and novc: "100 * unat curregs < 2 ^ 64"
    and le: "unat curregs \<le> unat curslabs * unat nregs"
    by simp_all
  have m: "unat (curslabs * nregs) = unat curslabs * unat nregs"
    using nov by (simp add: unat_word_ariths)
  have c: "unat (100 * curregs) = 100 * unat curregs"
    using novc by (simp add: unat_word_ariths)
  have pos: "0 < unat curslabs * unat nregs"
    using True by (simp add: word_less_nat_alt)
  have nz: "curslabs * nregs \<noteq> 0"
    using m pos by (metis less_numeral_extra(3) unat_0)
  have q: "unat ((100 * curregs) div (curslabs * nregs)) =
           (100 * unat curregs) div (unat curslabs * unat nregs)"
    by (simp add: unat_div m c)
  have "100 * unat curregs \<le> 100 * (unat curslabs * unat nregs)"
    using le by simp
  then have "(100 * unat curregs) div (unat curslabs * unat nregs)
             \<le> (100 * (unat curslabs * unat nregs)) div (unat curslabs * unat nregs)"
    by (rule div_le_mono)
  then have qle: "(100 * unat curregs) div (unat curslabs * unat nregs) \<le> 100"
    using pos by simp
  have "unat (100 - ((100 * curregs) div (curslabs * nregs))) =
        100 - (100 * unat curregs) div (unat curslabs * unat nregs)"
    using qle q by (simp add: unat_sub word_le_nat_alt)
  then show ?thesis using True nz qle
    by (simp add: computeBinFrag_def word_le_nat_alt word_less_nat_alt)
qed

theorem computeBinFrag_formula_witness:
  "(0::uint64) < 5 \<and> (0::uint64) < 20 \<and>
   unat (5::uint64) * unat (20::uint64) < 2 ^ 64 \<and> 100 * unat (75::uint64) < 2 ^ 64 \<and>
   unat (75::uint64) \<le> unat (5::uint64) * unat (20::uint64) \<and>
   computeBinFrag 75 5 20 = Inr 25 \<and> computeBinFrag 75 0 20 = Inr 0"
proof -
  have h: "(0::uint64) < 5 \<and> (0::uint64) < 20 \<longrightarrow>
      unat (5::uint64) * unat (20::uint64) < 2 ^ 64 \<and> 100 * unat (75::uint64) < 2 ^ 64 \<and>
      unat (75::uint64) \<le> unat (5::uint64) * unat (20::uint64)"
    by simp
  have z: "computeBinFrag 75 0 20 = Inr 0"
    by (simp add: computeBinFrag_def)
  from computeBinFrag_formula [OF h] have "computeBinFrag 75 5 20 = Inr 25"
    by blast
  with z show ?thesis by simp
qed

section \<open>Properties of the access barrier\<close>

subsection \<open>The flush offset\<close>

lemma doCleanup_iter_sessions: "sessions (doCleanup_iter q ab) = sessions ab"
  by (induction q arbitrary: ab) (simp_all add: Let_def)

lemma doCleanup_sessions: "sessions (doCleanup ab) = sessions ab"
  by (simp add: doCleanup_def doCleanup_iter_sessions)

text \<open>C2, counterexample. The constant is \<open>MaxInt32 / 2\<close>, which is not \<open>2^30\<close>.\<close>

theorem barrierFlushOffset_not_2_30:
  "barrierFlushOffset \<noteq> 2 ^ 30"
  by (simp add: barrierFlushOffset_def MaxInt32_def)

text \<open>
  C2, as amended. The flush offset is \<open>MaxInt32 div 2 = 2^30 - 1 = 1073741823\<close>, and
  this is the value the barrier works with: \<open>Acquire\<close> backs off exactly when the
  incremented count is above 1073741823; \<open>Release\<close> counts a closing exactly when the
  decremented count equals 1073741823; \<open>FlushSession\<close> biases the count of the flushed
  session by \<open>1073741823 + 1\<close> before its own release takes 1 off again.
\<close>

theorem barrierFlushOffset_value:
  "barrierFlushOffset = 2 ^ 30 - 1 \<and>
   (active ab \<longrightarrow>
      Acquire ab =
        (if sint (liveCount (sessions ab (session ab)) + 1) > 1073741823
         then (case Release (snd (addLiveCount ab (session ab) 1)) (session ab) of
                 Inl e \<Rightarrow> Some (Inl e) | Inr ab2 \<Rightarrow> Acquire ab2)
         else Some (Inr (Some (session ab), snd (addLiveCount ab (session ab) 1))))) \<and>
   (active ab \<and> Release ab bs = Inr ab' \<longrightarrow>
      closed (sessions ab' bs) =
        (if sint (liveCount (sessions ab bs) - 1) = 1073741823
         then closed (sessions ab bs) + 1 else closed (sessions ab bs))) \<and>
   (active ab \<and> session ab < nextAddr ab \<and> FlushSession ab ref = Inr ab'' \<longrightarrow>
      liveCount (sessions ab'' (session ab)) =
        liveCount (sessions ab (session ab)) + 1073741824 - 1)"
proof (intro conjI impI)
  show "barrierFlushOffset = 2 ^ 30 - 1"
    by (simp add: barrierFlushOffset_def MaxInt32_def)
next
  assume "active ab"
  then show "Acquire ab =
        (if sint (liveCount (sessions ab (session ab)) + 1) > 1073741823
         then (case Release (snd (addLiveCount ab (session ab) 1)) (session ab) of
                 Inl e \<Rightarrow> Some (Inl e) | Inr ab2 \<Rightarrow> Acquire ab2)
         else Some (Inr (Some (session ab), snd (addLiveCount ab (session ab) 1))))"
    by (subst Acquire.simps)
       (simp add: addLiveCount_def Let_def barrierFlushOffset_def MaxInt32_def)
next
  assume "active ab \<and> Release ab bs = Inr ab'"
  then show "closed (sessions ab' bs) =
        (if sint (liveCount (sessions ab bs) - 1) = 1073741823
         then closed (sessions ab bs) + 1 else closed (sessions ab bs))"
    by (auto simp: Release_def addLiveCount_def addClosed_def Let_def doCleanup_sessions
          barrierFlushOffset_def MaxInt32_def split: if_splits)
next
  assume "active ab \<and> session ab < nextAddr ab \<and> FlushSession ab ref = Inr ab''"
  then show "liveCount (sessions ab'' (session ab)) =
        liveCount (sessions ab (session ab)) + 1073741824 - 1"
    by (auto simp: FlushSession_def Release_def addLiveCount_def addClosed_def Let_def
          doCleanup_sessions barrierFlushOffset_def MaxInt32_def split: if_splits)
qed

theorem barrierFlushOffset_value_witness:
  "active barrier_one_reader \<and>
   Release barrier_one_reader 0 = Inr (newAccessBarrier True) \<and>
   session barrier_one_reader < nextAddr barrier_one_reader \<and>
   (\<exists>ab''. FlushSession barrier_one_reader 7 = Inr ab'' \<and>
      liveCount (sessions ab'' 0) = 1073741824) \<and>
   closed (sessions (newAccessBarrier True) 0) = 0 \<and>
   Acquire barrier_one_reader =
     Some (Inr (Some 0, snd (addLiveCount barrier_one_reader 0 1)))"
proof -
  have a: "active barrier_one_reader"
    by (simp add: barrier_one_reader_def newAccessBarrier_def)
  have r: "Release barrier_one_reader 0 = Inr (newAccessBarrier True)"
    by (simp add: barrier_one_reader_def newAccessBarrier_def Release_def addLiveCount_def
          Let_def barrierFlushOffset_def MaxInt32_def newBarrierSession_def fun_eq_iff)
  have s: "session barrier_one_reader = 0" "session barrier_one_reader < nextAddr barrier_one_reader"
    by (simp_all add: barrier_one_reader_def newAccessBarrier_def)
  have l: "liveCount (sessions barrier_one_reader 0) = 1"
    by (simp add: barrier_one_reader_def)
  obtain ab'' where f: "FlushSession barrier_one_reader 7 = Inr ab''"
    by (simp add: barrier_one_reader_def newAccessBarrier_def FlushSession_def Release_def
          addLiveCount_def Let_def barrierFlushOffset_def MaxInt32_def newBarrierSession_def)
  note t = barrierFlushOffset_value [of barrier_one_reader 0 "newAccessBarrier True" 7 ab'']
  from t a r have c: "closed (sessions (newAccessBarrier True) 0) =
      (if sint (liveCount (sessions barrier_one_reader 0) - 1) = 1073741823
       then closed (sessions barrier_one_reader 0) + 1 else closed (sessions barrier_one_reader 0))"
    by blast
  from t a s f have "liveCount (sessions ab'' (session barrier_one_reader)) =
      liveCount (sessions barrier_one_reader (session barrier_one_reader)) + 1073741824 - 1"
    by blast
  then have b: "liveCount (sessions ab'' 0) = 1073741824"
    using s l by simp
  from t a have "Acquire barrier_one_reader =
        (if sint (liveCount (sessions barrier_one_reader (session barrier_one_reader)) + 1) > 1073741823
         then (case Release (snd (addLiveCount barrier_one_reader (session barrier_one_reader) 1))
                      (session barrier_one_reader) of
                 Inl e \<Rightarrow> Some (Inl e) | Inr ab2 \<Rightarrow> Acquire ab2)
         else Some (Inr (Some (session barrier_one_reader),
                snd (addLiveCount barrier_one_reader (session barrier_one_reader) 1))))"
    by blast
  then have q: "Acquire barrier_one_reader =
     Some (Inr (Some 0, snd (addLiveCount barrier_one_reader 0 1)))"
    using s l by simp
  have "closed (sessions (newAccessBarrier True) 0) = 0"
    using c l by (simp add: barrier_one_reader_def newBarrierSession_def)
  with a r s f b q show ?thesis by blast
qed

subsection \<open>The session comparator\<close>

lemma CompareBS_diff:
  assumes "\<bar>uint (seqno a) - uint (seqno b)\<bar> < 2 ^ 63"
  shows "CompareBS a b = uint (seqno a) - uint (seqno b)"
proof -
  have "seqno a - seqno b = word_of_int (uint (seqno a) - uint (seqno b))"
    by simp
  then have "sint (seqno a - seqno b) = signed_take_bit 63 (uint (seqno a) - uint (seqno b))"
    by (simp only: sint_sbintrunc') simp
  also have "\<dots> = uint (seqno a) - uint (seqno b)"
    using assms by (intro signed_take_bit_int_eq_self) auto
  finally show ?thesis by (simp add: CompareBS_def)
qed

text \<open>
  C9, counterexample. For \<open>seqno = 2^63\<close> against \<open>seqno = 0\<close> the conversion to
  \<open>int\<close> yields \<open>-2^63\<close>: the comparator is negative although the first seqno is the
  larger one.
\<close>

theorem CompareBS_wraps:
  "CompareBS (newBarrierSession\<lparr>seqno := 9223372036854775808\<rparr>)
             (newBarrierSession\<lparr>seqno := 0\<rparr>) < 0 \<and>
   \<not> seqno (newBarrierSession\<lparr>seqno := 9223372036854775808\<rparr>)
       < seqno (newBarrierSession\<lparr>seqno := 0\<rparr>)"
  by (simp add: CompareBS_def newBarrierSession_def)

text \<open>
  C9, as amended. For every pair of sessions whose seqno values differ by less than
  \<open>2^63\<close>, \<open>CompareBS a b\<close> is negative iff \<open>a.seqno < b.seqno\<close>, zero iff they are
  equal and positive iff \<open>a.seqno > b.seqno\<close>.
\<close>

theorem CompareBS_sign:
  assumes "\<bar>uint (seqno a) - uint (seqno b)\<bar> < 2 ^ 63"
  shows "(CompareBS a b < 0 \<longleftrightarrow> seqno a < seqno b) \<and>
         (CompareBS a b = 0 \<longleftrightarrow> seqno a = seqno b) \<and>
         (CompareBS a b > 0 \<longleftrightarrow> seqno a > seqno b)"
  using CompareBS_diff [OF assms] by (auto simp: word_less_def word_uint_eq_iff)

theorem CompareBS_sign_witness:
  "\<bar>uint (seqno (newBarrierSession\<lparr>seqno := 3\<rparr>)) - uint (seqno (newBarrierSession\<lparr>seqno := 7\<rparr>))\<bar>
     < 2 ^ 63 \<and>
   CompareBS (newBarrierSession\<lparr>seqno := 3\<rparr>) (newBarrierSession\<lparr>seqno := 7\<rparr>) < 0 \<and>
   \<not> CompareBS (newBarrierSession\<lparr>seqno := 3\<rparr>) (newBarrierSession\<lparr>seqno := 7\<rparr>) > 0"
proof -
  have h: "\<bar>uint (seqno (newBarrierSession\<lparr>seqno := 3\<rparr>))
            - uint (seqno (newBarrierSession\<lparr>seqno := 7\<rparr>))\<bar> < 2 ^ 63"
    by simp
  show ?thesis
    using CompareBS_sign [OF h] h by simp
qed

subsection \<open>Release and Acquire\<close>

text \<open>
  C8. On an active barrier \<open>Release\<close> raises \<open>UnsafeReclamation\<close> iff the decremented
  \<open>liveCount\<close> is negative or equals \<open>barrierFlushOffset - 1\<close>; in every other case it
  returns a barrier.
\<close>

theorem Release_UnsafeReclamation_iff:
  assumes "active ab"
  shows "(Release ab bs = Inl UnsafeReclamation \<longleftrightarrow>
            sint (liveCount (sessions ab bs) - 1) < 0 \<or>
            sint (liveCount (sessions ab bs) - 1) = barrierFlushOffset - 1) \<and>
         (\<not> (sint (liveCount (sessions ab bs) - 1) < 0 \<or>
             sint (liveCount (sessions ab bs) - 1) = barrierFlushOffset - 1) \<longrightarrow>
            (\<exists>ab'. Release ab bs = Inr ab'))"
  using assms
  by (auto simp: Release_def addLiveCount_def addClosed_def Let_def barrierFlushOffset_def
        MaxInt32_def split: prod.splits)

theorem Release_UnsafeReclamation_iff_witness:
  "active (newAccessBarrier True) \<and>
   Release (newAccessBarrier True) 0 = Inl UnsafeReclamation \<and>
   sint (liveCount (sessions (newAccessBarrier True) 0) - 1) < 0 \<and>
   active barrier_one_reader \<and>
   \<not> (sint (liveCount (sessions barrier_one_reader 0) - 1) < 0 \<or>
      sint (liveCount (sessions barrier_one_reader 0) - 1) = barrierFlushOffset - 1) \<and>
   (\<exists>ab'. Release barrier_one_reader 0 = Inr ab')"
proof -
  have a: "active (newAccessBarrier True)" "active barrier_one_reader"
    by (simp_all add: barrier_one_reader_def newAccessBarrier_def)
  have n: "sint (liveCount (sessions (newAccessBarrier True) 0) - 1) < 0"
    by (simp add: newAccessBarrier_def newBarrierSession_def)
  have p: "\<not> (sint (liveCount (sessions barrier_one_reader 0) - 1) < 0 \<or>
      sint (liveCount (sessions barrier_one_reader 0) - 1) = barrierFlushOffset - 1)"
    by (simp add: barrier_one_reader_def barrierFlushOffset_def MaxInt32_def)
  from Release_UnsafeReclamation_iff [OF a(1), of 0] n
  have "Release (newAccessBarrier True) 0 = Inl UnsafeReclamation"
    by blast
  moreover from Release_UnsafeReclamation_iff [OF a(2), of 0] p
  have "\<exists>ab'. Release barrier_one_reader 0 = Inr ab'"
    by blast
  ultimately show ?thesis using a n p by blast
qed

text \<open>
  C10. On an active barrier whose current session has \<open>liveCount = c\<close> with \<open>0 \<le> c\<close>
  and \<open>c + 1 < barrierFlushOffset - 1\<close>, \<open>Acquire\<close> returns the current session with
  \<open>liveCount = c + 1\<close>, and the following \<open>Release\<close> of that handle returns the barrier
  as it was before the \<open>Acquire\<close>: the count is \<open>c\<close> again, no fault is raised, the
  \<open>closed\<close> counter, the free queue and the record of destructor calls are untouched.
\<close>

theorem Acquire_Release_roundtrip:
  assumes "active ab" and "c = sint (liveCount (sessions ab (session ab)))"
    and "0 \<le> c" and "c + 1 < barrierFlushOffset - 1"
  shows "\<exists>ab1. Acquire ab = Some (Inr (Some (session ab), ab1)) \<and>
           sint (liveCount (sessions ab1 (session ab))) = c + 1 \<and>
           closed (sessions ab1 (session ab)) = closed (sessions ab (session ab)) \<and>
           callb ab1 = callb ab \<and> freeq ab1 = freeq ab \<and>
           Release ab1 (session ab) = Inr ab"
proof -
  let ?bs = "session ab"
  let ?l = "liveCount (sessions ab ?bs)"
  have r: "sint (?l + 1) = c + 1"
    using assms(2,3,4)
    by (simp add: sint_word_ariths barrierFlushOffset_def MaxInt32_def
          signed_take_bit_int_eq_self)
  define ab1 where "ab1 = snd (addLiveCount ab ?bs 1)"
  have a: "Acquire ab = Some (Inr (Some ?bs, ab1))"
    using assms(1,4) r
    by (subst Acquire.simps) (simp add: addLiveCount_def Let_def ab1_def)
  have l1: "liveCount (sessions ab1 ?bs) = ?l + 1"
    by (simp add: ab1_def addLiveCount_def Let_def)
  have same: "closed (sessions ab1 ?bs) = closed (sessions ab ?bs)"
    "callb ab1 = callb ab" "freeq ab1 = freeq ab"
    by (simp_all add: ab1_def addLiveCount_def Let_def)
  have undo: "snd (addLiveCount ab1 ?bs (- 1)) = ab"
    by (simp add: ab1_def addLiveCount_def Let_def)
  have "Release ab1 ?bs = Inr ab"
    using assms undo l1
    by (simp add: Release_def addLiveCount_def Let_def ab1_def barrierFlushOffset_def
          MaxInt32_def)
  then show ?thesis using a l1 r same by simp
qed

theorem Acquire_Release_roundtrip_witness:
  "active barrier_one_reader \<and>
   0 \<le> sint (liveCount (sessions barrier_one_reader (session barrier_one_reader))) \<and>
   sint (liveCount (sessions barrier_one_reader (session barrier_one_reader))) + 1
     < barrierFlushOffset - 1 \<and>
   (\<exists>ab1. Acquire barrier_one_reader = Some (Inr (Some 0, ab1)) \<and>
          sint (liveCount (sessions ab1 0)) = 2 \<and>
          Release ab1 0 = Inr barrier_one_reader)"
proof -
  have a: "active barrier_one_reader"
    by (simp add: barrier_one_reader_def newAccessBarrier_def)
  have s: "session barrier_one_reader = 0"
    by (simp add: barrier_one_reader_def newAccessBarrier_def)
  have l: "sint (liveCount (sessions barrier_one_reader (session barrier_one_reader))) = 1"
    by (simp add: barrier_one_reader_def newAccessBarrier_def)
  have h1: "0 \<le> sint (liveCount (sessions barrier_one_reader (session barrier_one_reader)))"
    and h2: "sint (liveCount (sessions barrier_one_reader (session barrier_one_reader))) + 1
              < barrierFlushOffset - 1"
    unfolding l by (simp_all add: barrierFlushOffset_def MaxInt32_def)
  from Acquire_Release_roundtrip [OF a refl h1 h2] obtain ab1 where
    "Acquire barrier_one_reader = Some (Inr (Some (session barrier_one_reader), ab1))"
    "sint (liveCount (sessions ab1 (session barrier_one_reader))) =
       sint (liveCount (sessions barrier_one_reader (session barrier_one_reader))) + 1"
    "Release ab1 (session barrier_one_reader) = Inr barrier_one_reader"
    by blast
  then have "Acquire barrier_one_reader = Some (Inr (Some 0, ab1)) \<and>
          sint (liveCount (sessions ab1 0)) = 2 \<and>
          Release ab1 0 = Inr barrier_one_reader"
    using l by (simp add: s)
  then show ?thesis using a h1 h2 by blast
qed

subsection \<open>The destructor chain\<close>

lemma doCleanup_iter_char:
  "freeq ab = q \<Longrightarrow>
   \<exists>n\<le>length q.
     map (\<lambda>a. seqno (sessions ab a)) (take n q) = map (\<lambda>i. freeSeqno ab + 1 + of_nat i) [0..<n] \<and>
     (n < length q \<longrightarrow> seqno (sessions ab (q ! n)) \<noteq> freeSeqno ab + of_nat n + 1) \<and>
     doCleanup_iter q ab =
       ab\<lparr>freeSeqno := freeSeqno ab + of_nat n,
          callb := callb ab @ map (\<lambda>a. objectRef (sessions ab a)) (take n q),
          freeq := drop n q,
          numFreed := numFreed ab + of_nat n\<rparr>"
proof (induction q arbitrary: ab)
  case Nil
  then show ?case by simp
next
  case (Cons node rest)
  show ?case
  proof (cases "seqno (sessions ab node) = freeSeqno ab + 1")
    case False
    then show ?thesis using Cons.prems
      by (intro exI[of _ 0]) simp
  next
    case True
    define ab' where "ab' = ab\<lparr>freeSeqno := freeSeqno ab + 1,
                 callb := callb ab @ [objectRef (sessions ab node)],
                 freeq := remove1 node (freeq ab),
                 numFreed := numFreed ab + 1\<rparr>"
    have q': "freeq ab' = rest" using Cons.prems by (simp add: ab'_def)
    from Cons.IH[OF q'] obtain n where n: "n \<le> length rest"
      "map (\<lambda>a. seqno (sessions ab' a)) (take n rest) = map (\<lambda>i. freeSeqno ab' + 1 + of_nat i) [0..<n]"
      "n < length rest \<longrightarrow> seqno (sessions ab' (rest ! n)) \<noteq> freeSeqno ab' + of_nat n + 1"
      "doCleanup_iter rest ab' =
       ab'\<lparr>freeSeqno := freeSeqno ab' + of_nat n,
          callb := callb ab' @ map (\<lambda>a. objectRef (sessions ab' a)) (take n rest),
          freeq := drop n rest,
          numFreed := numFreed ab' + of_nat n\<rparr>"
      by blast
    have s: "sessions ab' = sessions ab" "freeSeqno ab' = freeSeqno ab + 1"
      "callb ab' = callb ab @ [objectRef (sessions ab node)]" "numFreed ab' = numFreed ab + 1"
      by (simp_all add: ab'_def)
    have step: "doCleanup_iter (node # rest) ab = doCleanup_iter rest ab'"
      using True by (simp add: ab'_def Let_def)
    have m: "map (\<lambda>i. freeSeqno ab + 1 + of_nat i) [0..<Suc n] =
             (freeSeqno ab + 1) # map (\<lambda>i. freeSeqno ab + 1 + 1 + of_nat i) [0..<n]"
      by (simp add: upt_conv_Cons map_Suc_upt[symmetric] del: upt_Suc)
    show ?thesis
    proof (intro exI[of _ "Suc n"] conjI)
      show "Suc n \<le> length (node # rest)" using n(1) by simp
      show "map (\<lambda>a. seqno (sessions ab a)) (take (Suc n) (node # rest)) =
            map (\<lambda>i. freeSeqno ab + 1 + of_nat i) [0..<Suc n]"
        using n(2) True unfolding m s by simp
      show "Suc n < length (node # rest) \<longrightarrow>
            seqno (sessions ab ((node # rest) ! Suc n)) \<noteq> freeSeqno ab + of_nat (Suc n) + 1"
        using n(3) unfolding s by (simp add: add.assoc add.commute add.left_commute)
      show "doCleanup_iter (node # rest) ab =
        ab\<lparr>freeSeqno := freeSeqno ab + of_nat (Suc n),
          callb := callb ab @ map (\<lambda>a. objectRef (sessions ab a)) (take (Suc n) (node # rest)),
          freeq := drop (Suc n) (node # rest),
          numFreed := numFreed ab + of_nat (Suc n)\<rparr>"
        unfolding step n(4) s by (simp add: ab'_def add.assoc add.commute)
    qed
  qed
qed


lemma word_gt_succ: "(x::'a::len word) < s \<Longrightarrow> s \<noteq> x + 1 \<Longrightarrow> x + 1 < s"
  by (metis inc_le order_le_imp_less_or_eq)

lemma doCleanup_drains:
  assumes sorted: "sorted_wrt (<) (map (\<lambda>a. seqno (sessions ab a)) (freeq ab))"
    and above: "\<forall>a\<in>set (freeq ab). freeSeqno ab < seqno (sessions ab a)"
  shows "\<exists>n\<le>length (freeq ab).
     map (\<lambda>a. seqno (sessions ab a)) (take n (freeq ab)) =
       map (\<lambda>i. freeSeqno ab + 1 + of_nat i) [0..<n] \<and>
     (n < length (freeq ab) \<longrightarrow>
        freeSeqno ab + of_nat n + 1 < seqno (sessions ab (freeq ab ! n))) \<and>
     doCleanup ab =
       ab\<lparr>freeSeqno := freeSeqno ab + of_nat n,
          callb := callb ab @ map (\<lambda>a. objectRef (sessions ab a)) (take n (freeq ab)),
          freeq := drop n (freeq ab),
          numFreed := numFreed ab + of_nat n\<rparr>"
proof -
  let ?q = "freeq ab"
  let ?sq = "\<lambda>a. seqno (sessions ab a)"
  from doCleanup_iter_char [OF refl, of ab] obtain n where n: "n \<le> length ?q"
    "map ?sq (take n ?q) = map (\<lambda>i. freeSeqno ab + 1 + of_nat i) [0..<n]"
    "n < length ?q \<longrightarrow> ?sq (?q ! n) \<noteq> freeSeqno ab + of_nat n + 1"
    "doCleanup_iter ?q ab =
       ab\<lparr>freeSeqno := freeSeqno ab + of_nat n,
          callb := callb ab @ map (\<lambda>a. objectRef (sessions ab a)) (take n ?q),
          freeq := drop n ?q,
          numFreed := numFreed ab + of_nat n\<rparr>"
    by blast
  have "freeSeqno ab + of_nat n + 1 < ?sq (?q ! n)" if lt: "n < length ?q"
  proof -
    have gt: "freeSeqno ab + of_nat n < ?sq (?q ! n)"
    proof (cases n)
      case 0
      then show ?thesis using above lt by simp
    next
      case (Suc m)
      have "map ?sq (take (Suc m) ?q) ! m = ?sq (?q ! m)"
        using Suc lt by simp
      moreover have "map (\<lambda>i. freeSeqno ab + 1 + of_nat i) [0..<Suc m] ! m
          = freeSeqno ab + 1 + of_nat m"
        by (simp del: upt_Suc)
      ultimately have "?sq (?q ! m) = freeSeqno ab + 1 + of_nat m"
        using n(2) Suc by (simp del: upt_Suc take_Suc)
      then have m: "?sq (?q ! m) = freeSeqno ab + of_nat n"
        using Suc by simp
      have "?sq (?q ! m) < ?sq (?q ! n)"
        using sorted lt Suc by (simp add: sorted_wrt_iff_nth_less)
      then show ?thesis using m by simp
    qed
    from word_gt_succ [OF gt] n(3) lt show ?thesis by simp
  qed
  then show ?thesis using n unfolding doCleanup_def by blast
qed

subsection \<open>Every interleaving keeps the destructor calls in order\<close>









lemma in_flush_ret_pc [simp]: "in_flush (ret_pc r) \<longleftrightarrow> r = ToFlush"
  by (cases r) simp_all

lemma in_clean_ret_pc [simp]: "\<not> in_clean (ret_pc r)"
  by (cases r) simp_all

lemma pc_ok_ret_pc [simp]: "pc_ok ab (ret_pc r)"
  by (cases r) simp_all

lemma pc_ok_call_pc [simp]: "pc_ok ab (call_pc c)"
  by (cases c) simp_all

lemma in_flush_call_pc [simp]: "\<not> in_flush (call_pc c)"
  by (cases c) simp_all

lemma in_clean_call_pc [simp]: "\<not> in_clean (call_pc c)"
  by (cases c) simp_all

lemma sint_minus1_32: "sint (- 1 :: int32) = - 1"
  by simp



















section \<open>Properties of the skiplist\<close>

subsection \<open>Evaluation on examples\<close>

lemmas skiplist_eval =
  randomLevel_loop.simps levelSearch.simps findPath_retry.simps Insert2_level0.simps
  Insert2_fixThisLevel.simps Delete_mark.simps Insert2_def Delete_def findPath_def
  randomLevel_def newNode_def setNext_def getNext_def dcasNext_def helpDelete_def New_def
  MaxLevel_def p_def env_steps_def Compare_def Let_def cmp_int_def

lemma Insert2_New_5:
  "Insert2 cmp_int New 5 (\<lambda>n. if n < 1 then 0 else 1) = Some (Inr skiplist_5)"
  by (simp add: skiplist_eval skiplist_5_def fun_eq_iff numeral_eq_Suc)

subsection \<open>Random level\<close>

lemma randomLevel_loop_count:
  assumes "\<forall>j<k. randFn (n + j) < p" "\<not> randFn (n + k) < p"
  shows "randomLevel_loop randFn n = Some (n + k)"
  using assms
proof (induction k arbitrary: n)
  case 0
  then show ?case by (subst randomLevel_loop.simps) simp
next
  case (Suc k)
  have "randFn n < p" using Suc.prems(1) by (metis add.right_neutral zero_less_Suc)
  moreover have "randomLevel_loop randFn (n + 1) = Some (n + 1 + k)"
    using Suc.prems by (intro Suc.IH) (auto simp: less_Suc_eq_0_disj)
  ultimately show ?case by (subst randomLevel_loop.simps) simp
qed

text \<open>
  C7. If the generator yields exactly \<open>k\<close> samples below \<open>p\<close> before the first one that is
  not, \<open>randomLevel\<close> returns. With \<open>L\<close> the top level it loads: if \<open>min k MaxLevel \<le> L\<close> it
  returns \<open>min k MaxLevel\<close>, makes no compare-and-swap and leaves the skiplist alone;
  otherwise it makes exactly one compare-and-swap, of \<open>L\<close> to \<open>L + 1\<close>, and returns \<open>L + 1\<close>
  whether or not the swap succeeded (it fails when other threads changed the top level
  in between). The level returned is at most \<open>MaxLevel\<close>, and a top level within
  \<open>[0, MaxLevel]\<close> stays there.
\<close>

theorem randomLevel_result:
  assumes below: "\<forall>j<k. randFn j < p" and stop: "\<not> randFn k < p"
  shows "\<exists>r s' evs. randomLevel s randFn env = Some (r, s', evs) \<and>
     (int (min k MaxLevel) \<le> sint (Skiplist.level s) \<longrightarrow>
        r = int (min k MaxLevel) \<and> s' = s \<and> evs = []) \<and>
     (int (min k MaxLevel) > sint (Skiplist.level s) \<longrightarrow>
        r = sint (Skiplist.level s) + 1 \<and>
        (\<exists>swapped. evs = [EvCasLevel (Skiplist.level s) (Skiplist.level s + 1) swapped] \<and>
           swapped = (Skiplist.level (env_steps s env) = Skiplist.level s) \<and>
           s' = (if swapped then (env_steps s env)\<lparr>level := Skiplist.level s + 1\<rparr>
                 else env_steps s env))) \<and>
     r \<le> int MaxLevel \<and>
     (0 \<le> sint (Skiplist.level s) \<and> sint (Skiplist.level s) \<le> int MaxLevel \<and>
      0 \<le> sint (Skiplist.level (env_steps s env)) \<and>
      sint (Skiplist.level (env_steps s env)) \<le> int MaxLevel \<longrightarrow>
        0 \<le> sint (Skiplist.level s') \<and> sint (Skiplist.level s') \<le> int MaxLevel)"
proof -
  have loop: "randomLevel_loop randFn 0 = Some k"
    using randomLevel_loop_count[of k randFn 0] below stop by simp
  have m: "(if k > MaxLevel then int MaxLevel else int k) = int (min k MaxLevel)"
    by simp
  show ?thesis
  proof (cases "int (min k MaxLevel) > sint (Skiplist.level s)")
    case False
    then show ?thesis
      by (auto simp: randomLevel_def loop Let_def min_def split: if_splits)
  next
    case True
    then have "sint (Skiplist.level s) < 32" by (simp add: MaxLevel_def)
    have up: "0 \<le> sint (Skiplist.level s) \<Longrightarrow> sint (Skiplist.level s + 1) = sint (Skiplist.level s) + 1"
      using \<open>sint (Skiplist.level s) < 32\<close>
      by (simp add: sint_word_ariths signed_take_bit_int_eq_self)
    show ?thesis
      using True up
      by (auto simp: randomLevel_def loop Let_def min_def MaxLevel_def)
  qed
qed


theorem randomLevel_result_witness:
  "list_all (\<lambda>j::nat. (if j < 3 then 0.1 else 0.5 :: real) < p) [0, 1, 2] \<and>
   \<not> (if (3::nat) < 3 then 0.1 else 0.5 :: real) < p \<and>
   int (min 3 MaxLevel) > sint (Skiplist.level skiplist_5) \<and>
   0 \<le> sint (Skiplist.level skiplist_5) \<and> sint (Skiplist.level skiplist_5) \<le> int MaxLevel \<and>
   randomLevel skiplist_5 (\<lambda>j. if j < 3 then 0.1 else 0.5) [] =
     Some (2, skiplist_5\<lparr>level := 2\<rparr>, [EvCasLevel 1 2 True]) \<and>
   randomLevel skiplist_5 (\<lambda>j. if j < 3 then 0.1 else 0.5) [EnvCasLevel 1 2] =
     Some (2, skiplist_5\<lparr>level := 2\<rparr>, [EvCasLevel 1 2 False])"
proof -
  let ?f = "\<lambda>j::nat. if j < 3 then 0.1 else 0.5 :: real"
  have b: "\<forall>j<3. ?f j < p" and st: "\<not> ?f 3 < p"
    by (simp_all add: p_def)
  have l: "Skiplist.level skiplist_5 = 1" "sint (Skiplist.level skiplist_5) = 1"
    by (simp_all add: skiplist_5_def)
  have gt: "int (min 3 MaxLevel) > sint (Skiplist.level skiplist_5)"
    by (simp add: l MaxLevel_def)
  have e: "env_steps skiplist_5 [] = skiplist_5"
    "env_steps skiplist_5 [EnvCasLevel 1 2] = skiplist_5\<lparr>level := 2\<rparr>"
    by (simp_all add: env_steps_def l)
  from randomLevel_result [OF b st, of skiplist_5 "[]"] gt
  have r1: "randomLevel skiplist_5 ?f [] = Some (2, skiplist_5\<lparr>level := 2\<rparr>, [EvCasLevel 1 2 True])"
    by (auto simp: l e)
  from randomLevel_result [OF b st, of skiplist_5 "[EnvCasLevel 1 2]"] gt
  have r2: "randomLevel skiplist_5 ?f [EnvCasLevel 1 2] =
     Some (2, skiplist_5\<lparr>level := 2\<rparr>, [EvCasLevel 1 2 False])"
    by (auto simp: l e)
  have la: "list_all (\<lambda>j::nat. ?f j < p) [0, 1, 2]"
    by (simp add: p_def)
  show ?thesis using la st gt r1 r2 by (simp add: l MaxLevel_def)
qed

subsection \<open>Delete: what it marks and when it runs findPath again\<close>

lemma Delete_mark_events:
  assumes "Delete_mark s d i n del sched dm evs = Some (Inr (s', sched', dm', evs'))"
  shows "\<exists>new. evs' = evs @ new \<and> list_all is_mark new \<and>
           dm' = (if new = [] then dm else mark_ok (last new))"
proof -
  define P where "P = (\<lambda>(s :: 'a Skiplist) (d :: addr option) (i :: nat) (n :: addr option) (del :: bool)
       (sched :: env_step list list) dm evs (r :: fault + 'a Skiplist \<times> env_step list list \<times> bool \<times> event list).
     \<forall>s' sched' dm' evs'. r = Inr (s', sched', dm', evs') \<longrightarrow>
       (\<exists>new. evs' = evs @ new \<and> list_all is_mark new \<and>
           dm' = (if new = [] then dm else mark_ok (last new))))"
  have "P s d i n del sched dm evs (Inr (s', sched', dm', evs'))"
  proof (rule Delete_mark.raw_induct[OF _ assms])
    fix f s d i n del sched dm evs r
    assume IH: "\<And>s d i n del sched dm evs r. f s d i n del sched dm evs = Some r \<Longrightarrow> P s d i n del sched dm evs r"
    and body: "(if \<not> del then
        (let s1 = env_steps s (case sched of [] \<Rightarrow> [] | es # _ \<Rightarrow> es);
             sched' = (case sched of [] \<Rightarrow> [] | _ # rest \<Rightarrow> rest)
         in case dcasNext s1 d i n n False True of
              Inl e \<Rightarrow> Some (Inl e)
            | Inr (swapped, s2) \<Rightarrow>
                (case getNext s2 d i of
                   Inl e \<Rightarrow> Some (Inl e)
                 | Inr (next_node', del') \<Rightarrow>
                     f s2 d i next_node' del' sched' swapped
                       (evs @ [EvMarkCas i swapped])))
      else Some (Inr (s, sched, dm, evs))) = Some r"
    show "P s d i n del sched dm evs r"
      unfolding P_def
    proof (intro allI impI)
      fix s' sched' dm' evs'
      assume r: "r = Inr (s', sched', dm', evs')"
      show "\<exists>new. evs' = evs @ new \<and> list_all is_mark new \<and>
           dm' = (if new = [] then dm else mark_ok (last new))"
      proof (cases del)
        case True
        then show ?thesis using body r by auto
      next
        case False
        then obtain swapped s2 n' del' sch' where
          rec: "f s2 d i n' del' sch' swapped (evs @ [EvMarkCas i swapped]) = Some r"
          using body r by (auto simp: Let_def split: sum.splits prod.splits)
        from IH[OF rec] r obtain new where
          "evs' = (evs @ [EvMarkCas i swapped]) @ new" "list_all is_mark new"
          "dm' = (if new = [] then swapped else mark_ok (last new))"
          unfolding P_def by blast
        then show ?thesis
          by (intro exI[of _ "EvMarkCas i swapped # new"]) (auto simp: is_mark_def mark_ok_def)
      qed
    qed
  qed
  then show ?thesis by (simp add: P_def)
qed

lemma Delete_levels_events:
  assumes "Delete_levels s d k sched dm evs = Some (Inr (s', sched', dm', evs'))"
  shows "\<exists>new. evs' = evs @ new \<and> list_all is_mark new \<and>
           dm' = (if new = [] then dm else mark_ok (last new))"
  using assms
proof (induction k arbitrary: s sched dm evs)
  case 0
  then show ?case by simp
next
  case (Suc k)
  from Suc.prems obtain n del s1 sched1 dm1 evs1 where
    m: "Delete_mark s d k n del sched dm evs = Some (Inr (s1, sched1, dm1, evs1))"
    and r: "Delete_levels s1 d k sched1 dm1 evs1 = Some (Inr (s', sched', dm', evs'))"
    by (auto split: sum.splits prod.splits option.splits)
  from Delete_mark_events[OF m] obtain new1 where n1: "evs1 = evs @ new1" "list_all is_mark new1"
    "dm1 = (if new1 = [] then dm else mark_ok (last new1))" by blast
  from Suc.IH[OF r] obtain new2 where n2: "evs' = evs1 @ new2" "list_all is_mark new2"
    "dm' = (if new2 = [] then dm1 else mark_ok (last new2))" by blast
  show ?case using n1 n2 by (intro exI[of _ "new1 @ new2"]) auto
qed

lemma getNext_marked:
  "getNext s (Some d) i = Inr (n, del) \<Longrightarrow> del = marked s d i"
  by (auto simp: getNext_def marked_def split: if_splits option.splits)

lemma dcasNext_marked:
  assumes "dcasNext s n l pp np False nd = Inr (b, s')" "marked s d i"
  shows "marked s' d i"
  using assms
  by (auto simp: dcasNext_def marked_def nth_list_update split: option.splits if_splits)

lemma dcasNext_mark_post:
  assumes "dcasNext s (Some d) i pp np False True = Inr (True, s')"
  shows "marked s' d i"
  using assms
  by (auto simp: dcasNext_def marked_def split: option.splits if_splits)

lemma setNext_marked:
  assumes "setNext s (Some n) l pt del = Inr s'" "n \<noteq> d" "marked s d i"
  shows "marked s' d i"
  using assms by (auto simp: setNext_def marked_def split: if_splits)

lemma apply_env_step_marked:
  "marked s d i \<Longrightarrow> \<not> stores_to d e \<Longrightarrow> marked (apply_env_step s e) d i"
  by (cases e)
     (auto simp: marked_def[of "_\<lparr>level := _\<rparr>"] marked_def[of s] split: sum.splits
           dest: dcasNext_marked setNext_marked)

lemma env_steps_marked:
  "marked s d i \<Longrightarrow> \<forall>e\<in>set es. \<not> stores_to d e \<Longrightarrow> marked (env_steps s es) d i"
  unfolding env_steps_def
  by (induction es arbitrary: s) (simp_all add: apply_env_step_marked)

lemma levelSearch_marked:
  assumes "levelSearch cmp it l s prev cur c = Some (Inr r)" "marked s d i"
  shows "marked (search_state r) d i"
proof -
  define P where "P = (\<lambda>(cmp :: 'a \<Rightarrow> 'a \<Rightarrow> int) (it :: 'a) (l :: nat) (s :: 'a Skiplist)
        (prev :: addr option) (cur :: addr option) (c :: int) (res :: fault + 'a search).
      \<forall>r. res = Inr r \<longrightarrow> marked s d i \<longrightarrow> marked (search_state r) d i)"
  have "P cmp it l s prev cur c (Inr r)"
  proof (rule levelSearch.raw_induct[OF _ assms(1)])
    fix f cmp it l s prev cur c res
    assume IH: "\<And>cmp it l s prev cur c res. f cmp it l s prev cur c = Some res \<Longrightarrow> P cmp it l s prev cur c res"
      and body: "(case getNext s cur l of
        Inl e \<Rightarrow> Some (Inl e)
      | Inr (next_node, del) \<Rightarrow>
          if del then
            (case helpDelete s l prev cur next_node of
               Inl e \<Rightarrow> Some (Inl e)
             | Inr (swapped, s') \<Rightarrow>
                 if \<not> swapped then Some (Inr (Retry s' c))
                 else (case getNext s' prev l of
                         Inl e \<Rightarrow> Some (Inl e)
                       | Inr (cur', _) \<Rightarrow> f cmp it l s' prev cur' c))
          else
            (case cur of
               None \<Rightarrow> Some (Inl NilDereference)
             | Some c' \<Rightarrow>
                 (let cmpVal' = Compare cmp (itm (nodes s c')) it
                  in if cmpVal' < 0 then
                       (case getNext s cur l of
                          Inl e \<Rightarrow> Some (Inl e)
                        | Inr (cur', _) \<Rightarrow> f cmp it l s cur cur' cmpVal')
                     else Some (Inr (Stop s prev cur cmpVal'))))) = Some res"
    show "P cmp it l s prev cur c res"
      unfolding P_def
    proof (intro allI impI)
      fix r assume r: "res = Inr r" and m: "marked s d i"
      from body r m show "marked (search_state r) d i"
        by (auto simp: helpDelete_def Let_def P_def split: sum.splits prod.splits if_splits option.splits
              dest!: IH dest: dcasNext_marked)
    qed
  qed
  with assms(2) show ?thesis by (simp add: P_def)
qed

lemma findPath_levels_marked:
  assumes "findPath_levels cmp it s n prev preds succs c = Some (Inr r)" "marked s d i"
  shows "marked (pass_state r) d i"
  using assms
proof (induction n arbitrary: s prev preds succs c)
  case 0
  then show ?case by auto
next
  case (Suc n)
  from Suc.prems(1) obtain cur x sr where g: "getNext s prev n = Inr (cur, x)"
    and ls: "levelSearch cmp it n s prev cur c = Some (Inr sr)"
    by (auto split: sum.splits prod.splits option.splits)
  from levelSearch_marked[OF ls Suc.prems(2)] have m: "marked (search_state sr) d i" .
  show ?case
  proof (cases sr)
    case (Retry s' c')
    then show ?thesis using Suc.prems(1) g ls m by auto
  next
    case (Stop s' p' c' v')
    then have "findPath_levels cmp it s' n p' (preds[n := p']) (succs[n := c']) v' = Some (Inr r)"
      using Suc.prems(1) g ls by (auto split: if_splits)
    from Suc.IH[OF this] m Stop show ?thesis by simp
  qed
qed

lemma findPath_retry_marked:
  assumes "findPath_retry cmp it s preds succs c = Some (Inr (s', preds', succs', found))" "marked s d i"
  shows "marked s' d i"
proof -
  define P where "P = (\<lambda>(cmp :: 'a \<Rightarrow> 'a \<Rightarrow> int) (it :: 'a) (s :: 'a Skiplist)
        (preds :: addr option list) (succs :: addr option list) (c :: int)
        (res :: fault + 'a Skiplist \<times> addr option list \<times> addr option list \<times> bool).
      \<forall>s' preds' succs' found. res = Inr (s', preds', succs', found) \<longrightarrow> marked s d i \<longrightarrow> marked s' d i)"
  have "P cmp it s preds succs c (Inr (s', preds', succs', found))"
  proof (rule findPath_retry.raw_induct[OF _ assms(1)])
    fix f cmp it s preds succs c res
    assume IH: "\<And>cmp it s preds succs c res. f cmp it s preds succs c = Some res \<Longrightarrow> P cmp it s preds succs c res"
      and body: "(case findPath_levels cmp it s (nat (sint (Skiplist.level s) + 1)) (head s) preds succs c of
        None \<Rightarrow> None
      | Some (Inl e) \<Rightarrow> Some (Inl e)
      | Some (Inr (Again s' preds' succs' cmpVal')) \<Rightarrow> f cmp it s' preds' succs' cmpVal'
      | Some (Inr (Done s' preds' succs' cmpVal')) \<Rightarrow> Some (Inr (s', preds', succs', cmpVal' = 0))) = Some res"
    show "P cmp it s preds succs c res"
      unfolding P_def
    proof (intro allI impI)
      fix s' preds' succs' found
      assume r: "res = Inr (s', preds', succs', found)" and m: "marked s d i"
      from body obtain pr where fl: "findPath_levels cmp it s (nat (sint (Skiplist.level s) + 1)) (head s) preds succs c = Some (Inr pr)"
        using r by (auto split: option.splits sum.splits)
      from findPath_levels_marked[OF fl m] have pm: "marked (pass_state pr) d i" .
      show "marked s' d i"
      proof (cases pr)
        case (Again s2 p2 q2 c2)
        then have "f cmp it s2 p2 q2 c2 = Some res" using body fl by simp
        from IH[OF this] r pm Again show ?thesis by (simp add: P_def)
      next
        case (Done s2 p2 q2 c2)
        then show ?thesis using body fl r pm by simp
      qed
    qed
  qed
  with assms(2) show ?thesis by (simp add: P_def)
qed

lemma findPath_marked:
  "findPath cmp s it = Some (Inr (s', preds', succs', found)) \<Longrightarrow> marked s d i \<Longrightarrow> marked s' d i"
  unfolding findPath_def by (rule findPath_retry_marked)

lemma Delete_mark_marked:
  assumes "Delete_mark s (Some d) i n del sched dm evs = Some (Inr (s', sched', dm', evs'))"
    and "del = marked s d i"
    and "\<forall>es\<in>set sched. \<forall>e\<in>set es. \<not> stores_to d e"
  shows "marked s' d i \<and> (\<forall>j. marked s d j \<longrightarrow> marked s' d j) \<and> set sched' \<subseteq> set sched"
proof -
  define P where "P = (\<lambda>(s :: 'a Skiplist) (dn :: addr option) (l :: nat) (n :: addr option) (del :: bool)
       (sched :: env_step list list) (dm :: bool) (evs :: event list)
       (r :: fault + 'a Skiplist \<times> env_step list list \<times> bool \<times> event list).
     \<forall>s' sched' dm' evs'. r = Inr (s', sched', dm', evs') \<longrightarrow> dn = Some d \<longrightarrow> del = marked s d l \<longrightarrow>
        (\<forall>es\<in>set sched. \<forall>e\<in>set es. \<not> stores_to d e) \<longrightarrow>
        marked s' d l \<and> (\<forall>j. marked s d j \<longrightarrow> marked s' d j) \<and> set sched' \<subseteq> set sched)"
  have "P s (Some d) i n del sched dm evs (Inr (s', sched', dm', evs'))"
  proof (rule Delete_mark.raw_induct[OF _ assms(1)])
    fix f s dn l n del sched dm evs r
    assume IH: "\<And>s d i n del sched dm evs r. f s d i n del sched dm evs = Some r \<Longrightarrow> P s d i n del sched dm evs r"
    and body: "(if \<not> del then
        (let s1 = env_steps s (case sched of [] \<Rightarrow> [] | es # _ \<Rightarrow> es);
             sched' = (case sched of [] \<Rightarrow> [] | _ # rest \<Rightarrow> rest)
         in case dcasNext s1 dn l n n False True of
              Inl e \<Rightarrow> Some (Inl e)
            | Inr (swapped, s2) \<Rightarrow>
                (case getNext s2 dn l of
                   Inl e \<Rightarrow> Some (Inl e)
                 | Inr (next_node', del') \<Rightarrow>
                     f s2 dn l next_node' del' sched' swapped
                       (evs @ [EvMarkCas l swapped])))
      else Some (Inr (s, sched, dm, evs))) = Some r"
    show "P s dn l n del sched dm evs r"
      unfolding P_def
    proof (intro allI impI)
      fix s' sched' dm' evs'
      assume r: "r = Inr (s', sched', dm', evs')" and dn: "dn = Some d" and del: "del = marked s d l"
        and quiet: "\<forall>es\<in>set sched. \<forall>e\<in>set es. \<not> stores_to d e"
      show "marked s' d l \<and> (\<forall>j. marked s d j \<longrightarrow> marked s' d j) \<and> set sched' \<subseteq> set sched"
      proof (cases del)
        case True
        then show ?thesis using body r del by auto
      next
        case False
        define es1 where "es1 = (case sched of [] \<Rightarrow> [] | es # _ \<Rightarrow> es)"
        define sch1 where "sch1 = (case sched of [] \<Rightarrow> [] | _ # rest \<Rightarrow> rest)"
        define s1 where "s1 = env_steps s es1"
        have q1: "\<forall>e\<in>set es1. \<not> stores_to d e" and sub: "set sch1 \<subseteq> set sched"
          using quiet unfolding es1_def sch1_def by (cases sched; simp; blast)+
        then have q2: "\<forall>es\<in>set sch1. \<forall>e\<in>set es. \<not> stores_to d e"
          using quiet by blast
        from False obtain swapped s2 n' del' where
          cas: "dcasNext s1 dn l n n False True = Inr (swapped, s2)"
          and gn: "getNext s2 dn l = Inr (n', del')"
          and rec: "f s2 dn l n' del' sch1 swapped (evs @ [EvMarkCas l swapped]) = Some r"
          using body r by (auto simp: Let_def s1_def es1_def sch1_def split: sum.splits prod.splits)
        have d': "del' = marked s2 d l" using gn dn by (auto dest: getNext_marked)
        from IH[OF rec] r dn d' q2 have post: "marked s' d l" "\<And>j. marked s2 d j \<Longrightarrow> marked s' d j"
          "set sched' \<subseteq> set sch1"
          unfolding P_def by blast+
        have "marked s d j \<Longrightarrow> marked s2 d j" for j
          using cas env_steps_marked[OF _ q1, of s j] by (auto simp: s1_def dest: dcasNext_marked)
        with post sub show ?thesis by blast
      qed
    qed
  qed
  with assms(2,3) show ?thesis by (simp add: P_def)
qed

lemma Delete_levels_marked:
  assumes "Delete_levels s (Some d) k sched dm evs = Some (Inr (s', sched', dm', evs'))"
    and "\<forall>es\<in>set sched. \<forall>e\<in>set es. \<not> stores_to d e"
  shows "(\<forall>i<k. marked s' d i) \<and> (\<forall>j. marked s d j \<longrightarrow> marked s' d j)"
  using assms
proof (induction k arbitrary: s sched dm evs)
  case 0
  then show ?case by simp
next
  case (Suc k)
  from Suc.prems(1) obtain n del s1 sched1 dm1 evs1 where
    g: "getNext s (Some d) k = Inr (n, del)"
    and m: "Delete_mark s (Some d) k n del sched dm evs = Some (Inr (s1, sched1, dm1, evs1))"
    and r: "Delete_levels s1 (Some d) k sched1 dm1 evs1 = Some (Inr (s', sched', dm', evs'))"
    by (auto split: sum.splits prod.splits option.splits)
  from Delete_mark_marked[OF m getNext_marked[OF g] Suc.prems(2)]
  have m1: "marked s1 d k" "\<And>j. marked s d j \<Longrightarrow> marked s1 d j" and sub: "set sched1 \<subseteq> set sched"
    by blast+
  have "\<forall>es\<in>set sched1. \<forall>e\<in>set es. \<not> stores_to d e" using sub Suc.prems(2) by blast
  from Suc.IH[OF r this] have m2: "\<And>i. i < k \<Longrightarrow> marked s' d i" "\<And>j. marked s1 d j \<Longrightarrow> marked s' d j"
    by blast+
  show ?case using m1 m2 by (auto simp: less_Suc_eq)
qed

text \<open>
  C1, counterexample. On the skiplist holding 5, \<open>Delete 5\<close> finds the item (its first
  \<open>findPath\<close> reports \<open>found\<close>) and marks it at both levels, and hands nothing back: the
  function has no result, so it does not return \<open>true\<close>.
\<close>

theorem Delete_returns_nothing:
  "map_option (map_sum id fst) (Delete cmp_int skiplist_5 5 []) = Some (Inr NoResult) \<and>
   map_option (map_sum id (snd \<circ> snd)) (Delete cmp_int skiplist_5 5 []) =
     Some (Inr [EvFindPath True, EvMarkCas 1 True, EvMarkCas 0 True, EvFindPath False]) \<and>
   NoResult \<noteq> BoolResult True"
  by (simp add: skiplist_eval skiplist_5_def numeral_eq_Suc)

text \<open>
  C1, as amended. \<open>Delete\<close> returns no value. If its \<open>findPath\<close> finds no equal item,
  \<open>Delete\<close> returns at once, leaving the skiplist as \<open>findPath\<close> left it and making no
  compare-and-swap. If \<open>findPath\<close> finds an equal item at level 0 and \<open>Delete\<close> returns,
  it returns no value, and every level of the node found is marked deleted on return,
  whether this call or a concurrent deleter set the mark, provided that no other thread
  stores into that node during the call (an \<^verbatim>\<open>Insert2\<close> that is still linking the node
  rewrites a slot with its plain \<^verbatim>\<open>setNext\<close> and takes the mark away).
\<close>

theorem Delete_marks_found_node:
  assumes "findPath cmp s it = Some (Inr (s1, preds, succs, found))"
  shows "(\<not> found \<longrightarrow> Delete cmp s it sched = Some (Inr (NoResult, s1, [EvFindPath False]))) \<and>
         (found \<longrightarrow>
            (\<forall>r s' evs. Delete cmp s it sched = Some (Inr (r, s', evs)) \<longrightarrow>
               r = NoResult \<and>
               (\<exists>d. succs ! 0 = Some d \<and>
                  ((\<forall>es\<in>set sched. \<forall>e\<in>set es. \<not> stores_to d e) \<longrightarrow>
                     (\<forall>i\<le>unat (Node.level (nodes s1 d)). marked s' d i)))))"
proof (intro conjI impI allI)
  assume "\<not> found"
  then show "Delete cmp s it sched = Some (Inr (NoResult, s1, [EvFindPath False]))"
    using assms by (simp add: Delete_def)
next
  fix r s' evs
  assume True: found and del: "Delete cmp s it sched = Some (Inr (r, s', evs))"
  from assms del True obtain d where d: "succs ! 0 = Some d"
    by (auto simp: Delete_def split: if_splits option.splits)
  let ?k = "Suc (unat (Node.level (nodes s1 d)))"
  from assms del True d obtain s2 sch2 dm2 evs2 where
    dl: "Delete_levels s1 (Some d) ?k sched False [EvFindPath True] = Some (Inr (s2, sch2, dm2, evs2))"
    by (auto simp: Delete_def Let_def split: if_splits option.splits sum.splits)
  have res: "r = NoResult \<and> (s' = s2 \<or> (\<exists>w1 w2 f'. findPath cmp s2 it = Some (Inr (s', w1, w2, f'))))"
  proof (cases dm2)
    case False
    then show ?thesis using assms del True d dl
      by (auto simp: Delete_def Let_def split: if_splits)
  next
    case dm: True
    then show ?thesis using assms del True d dl
      by (auto simp: Delete_def Let_def split: if_splits option.splits sum.splits)
  qed
  then show "r = NoResult" by blast
  have "(\<forall>es\<in>set sched. \<forall>e\<in>set es. \<not> stores_to d e) \<longrightarrow>
           (\<forall>i\<le>unat (Node.level (nodes s1 d)). marked s' d i)"
  proof
    assume quiet: "\<forall>es\<in>set sched. \<forall>e\<in>set es. \<not> stores_to d e"
    from Delete_levels_marked[OF dl quiet] have m2: "\<forall>i<?k. marked s2 d i" by blast
    have "\<forall>i<?k. marked s' d i"
    proof (intro allI impI)
      fix i assume "i < ?k"
      then have mi: "marked s2 d i" using m2 by blast
      from res consider "s' = s2"
        | w1 w2 f' where "findPath cmp s2 it = Some (Inr (s', w1, w2, f'))"
        by blast
      then show "marked s' d i"
      proof cases
        case 1
        then show ?thesis using mi by simp
      next
        case 2
        then show ?thesis using mi by (rule findPath_marked)
      qed
    qed
    then show "\<forall>i\<le>unat (Node.level (nodes s1 d)). marked s' d i"
      by (auto simp: less_Suc_eq_le)
  qed
  with d show "\<exists>d. succs ! 0 = Some d \<and>
                  ((\<forall>es\<in>set sched. \<forall>e\<in>set es. \<not> stores_to d e) \<longrightarrow>
                     (\<forall>i\<le>unat (Node.level (nodes s1 d)). marked s' d i))"
    by blast
qed

theorem Delete_marks_found_node_witness:
  "\<exists>s' evs s1 preds succs.
     findPath cmp_int skiplist_5 5 = Some (Inr (s1, preds, succs, True)) \<and>
     Delete cmp_int skiplist_5 5 [[EnvDcasNext 2 1 (Some 1) (Some 1) True]]
       = Some (Inr (NoResult, s', evs)) \<and>
     succs ! 0 = Some 2 \<and> unat (Node.level (nodes s1 2)) = 1 \<and>
     list_all (list_all (\<lambda>e. \<not> stores_to 2 e)) [[EnvDcasNext 2 1 (Some 1) (Some 1) True]] \<and>
     marked s' 2 0 \<and> marked s' 2 1 \<and>
     Delete cmp_int skiplist_5 7 [] = Some (Inr (NoResult, skiplist_5, [EvFindPath False]))"
proof -
  obtain s' evs where d: "Delete cmp_int skiplist_5 5 [[EnvDcasNext 2 1 (Some 1) (Some 1) True]]
       = Some (Inr (NoResult, s', evs))"
    by (simp add: skiplist_eval skiplist_5_def numeral_eq_Suc)
  obtain s1 preds succs where f: "findPath cmp_int skiplist_5 5 = Some (Inr (s1, preds, succs, True))"
    and s: "succs ! 0 = Some 2" and l: "unat (Node.level (nodes s1 2)) = 1"
    by (simp add: skiplist_eval skiplist_5_def numeral_eq_Suc)
  have q: "\<forall>es\<in>set [[EnvDcasNext 2 1 (Some 1) (Some 1) True]]. \<forall>e\<in>set es. \<not> stores_to 2 e"
    by simp
  from Delete_marks_found_node [OF f, of "[[EnvDcasNext 2 1 (Some 1) (Some 1) True]]"] d s l q
  have "\<forall>i\<le>1. marked s' 2 i"
    by auto
  then have m: "marked s' 2 0" "marked s' 2 1"
    by simp_all
  obtain p7 s7 where f7: "findPath cmp_int skiplist_5 7 = Some (Inr (skiplist_5, p7, s7, False))"
    by (simp add: skiplist_eval skiplist_5_def numeral_eq_Suc)
  from Delete_marks_found_node [OF f7, of "[]"]
  have d7: "Delete cmp_int skiplist_5 7 [] = Some (Inr (NoResult, skiplist_5, [EvFindPath False]))"
    by simp
  have la: "list_all (list_all (\<lambda>e. \<not> stores_to 2 e)) [[EnvDcasNext 2 1 (Some 1) (Some 1) True]]"
    by simp
  from d f s l m d7 la show ?thesis by blast
qed

text \<open>
  Why the proviso: \<open>Delete 5\<close> racing the \<^verbatim>\<open>Insert2\<close> that is still linking the node
  of 5. After this call has marked level 1 and before its compare-and-swap at level 0,
  the inserter's compare-and-swap on the head fails (the head points to 3 by now), its
  plain \<^verbatim>\<open>setNext\<close> rewrites level 1 of the node and its next compare-and-swap links
  the node after 3. \<open>Delete\<close> returns with level 0 of the node marked and level 1
  unmarked.
\<close>

lemma Delete_mark_overwritten_by_setNext:
  "map_option (map_sum id (\<lambda>(r, s', evs). (r, marked s' 2 0, marked s' 2 1, evs)))
     (Delete cmp_int skiplist_3_5_linking 5
        [[], [EnvDcasNext 0 1 (Some 1) (Some 2) False, EnvSetNext 2 1 (Some 1),
              EnvDcasNext 3 1 (Some 1) (Some 2) False]]) =
   Some (Inr (NoResult, True, False,
              [EvFindPath True, EvMarkCas 1 True, EvMarkCas 0 True, EvFindPath False]))"
  by (simp add: skiplist_eval skiplist_3_5_linking_def marked_def numeral_eq_Suc)

text \<open>
  C4, counterexample. \<open>Delete 5\<close> on the skiplist holding 5 in a node of level 1, with
  another deleter marking level 0 of that node just before this call's
  compare-and-swap at level 0: the compare-and-swap at level 1 succeeds, the one at
  level 0 fails, and \<open>findPath\<close> is not run again.
\<close>

theorem Delete_no_rerun_after_successful_mark:
  "map_option (map_sum id (snd \<circ> snd))
     (Delete cmp_int skiplist_5 5 [[], [EnvDcasNext 2 0 (Some 1) (Some 1) True]]) =
     Some (Inr [EvFindPath True, EvMarkCas 1 True, EvMarkCas 0 False])"
  by (simp add: skiplist_eval skiplist_5_def numeral_eq_Suc)

text \<open>
  C4, as amended. The operations of a \<open>Delete\<close> that returns are: the first \<open>findPath\<close>,
  then the marking compare-and-swaps, then a second \<open>findPath\<close> exactly when the last
  marking compare-and-swap attempted succeeded. (When none was attempted, or the last
  one attempted failed, \<open>findPath\<close> is not run again.)
\<close>

theorem Delete_reruns_findPath_iff:
  assumes "Delete cmp s it sched = Some (Inr (r, s', evs))"
  shows "\<exists>found marks rest.
           evs = EvFindPath found # marks @ rest \<and> list_all is_mark marks \<and>
           (if marks \<noteq> [] \<and> mark_ok (last marks) then (\<exists>f. rest = [EvFindPath f])
            else rest = [])"
proof -
  from assms obtain s1 preds succs found where
    fp: "findPath cmp s it = Some (Inr (s1, preds, succs, found))"
    by (auto simp: Delete_def split: option.splits sum.splits)
  show ?thesis
  proof (cases found)
    case False
    then have "evs = [EvFindPath False]"
      using assms fp by (simp add: Delete_def)
    then show ?thesis
      by (intro exI [of _ False] exI [of _ "[]"]) simp
  next
    case True
    from assms fp True obtain d where d: "succs ! 0 = Some d"
      by (auto simp: Delete_def split: if_splits option.splits)
    let ?k = "Suc (unat (Node.level (nodes s1 d)))"
    from assms fp True d obtain s2 sch2 dm2 evs2 where
      dl: "Delete_levels s1 (Some d) ?k sched False [EvFindPath True]
             = Some (Inr (s2, sch2, dm2, evs2))"
      by (auto simp: Delete_def Let_def split: if_splits option.splits sum.splits)
    from Delete_levels_events [OF dl] obtain marks where
      m: "evs2 = [EvFindPath True] @ marks" "list_all is_mark marks"
         "dm2 = (if marks = [] then False else mark_ok (last marks))"
      by blast
    show ?thesis
    proof (cases dm2)
      case False
      then have "evs = evs2"
        using assms fp True d dl by (auto simp: Delete_def Let_def split: if_splits)
      then show ?thesis using m False
        by (intro exI [of _ True] exI [of _ marks] exI [of _ "[]"]) (auto split: if_splits)
    next
      case dm: True
      then obtain f' where "evs = evs2 @ [EvFindPath f']"
        using assms fp True d dl
        by (auto simp: Delete_def Let_def split: if_splits option.splits sum.splits)
      then show ?thesis using m dm
        by (intro exI [of _ True] exI [of _ marks] exI [of _ "[EvFindPath f']"])
           (auto split: if_splits)
    qed
  qed
qed

theorem Delete_reruns_findPath_iff_witness:
  "\<exists>s'. Delete cmp_int skiplist_5 5 [] =
           Some (Inr (NoResult, s',
             EvFindPath True # [EvMarkCas 1 True, EvMarkCas 0 True] @ [EvFindPath False])) \<and>
         list_all is_mark [EvMarkCas 1 True, EvMarkCas 0 True] \<and>
         mark_ok (last [EvMarkCas 1 True, EvMarkCas 0 True])"
proof -
  obtain s' where d: "Delete cmp_int skiplist_5 5 [] =
       Some (Inr (NoResult, s', [EvFindPath True, EvMarkCas 1 True, EvMarkCas 0 True,
                                 EvFindPath False]))"
    by (simp add: skiplist_eval skiplist_5_def numeral_eq_Suc)
  from Delete_reruns_findPath_iff [OF d] obtain found marks rest where
    "[EvFindPath True, EvMarkCas 1 True, EvMarkCas 0 True, EvFindPath False]
       = EvFindPath found # marks @ rest"
    "list_all is_mark marks"
    by blast
  have "list_all is_mark [EvMarkCas 1 True, EvMarkCas 0 True]"
    "mark_ok (last [EvMarkCas 1 True, EvMarkCas 0 True])"
    by (simp_all add: is_mark_def mark_ok_def)
  with d show ?thesis by auto
qed

subsection \<open>The level-0 chain after single-threaded inserts and deletes\<close>

lemma chain_at_append [simp]: "chain_at i (xs @ ys) = chain_at i xs @ chain_at i ys"
  by (simp add: chain_at_def)

lemma chain_at_Nil [simp]: "chain_at i [] = []"
  by (simp add: chain_at_def)

lemma chain_at_Cons: "chain_at i ((n, v, l) # xs) = (if i \<le> l then n # chain_at i xs else chain_at i xs)"
  by (simp add: chain_at_def)

lemma path_append:
  "path s i mk (xs @ ys) b \<longleftrightarrow> path s i mk xs (hd (ys @ [b])) \<and> path s i mk ys b"
  by (induction xs) (auto simp: hd_append)

lemma path_mk_cong:
  "(\<And>x. x \<in> set ns \<Longrightarrow> mk x = mk' x) \<Longrightarrow> path s i mk ns b = path s i mk' ns b"
  by (induction ns) (auto simp: cell_def)

lemma path_frame:
  assumes "\<And>x. x \<in> set ns \<Longrightarrow> length (nxt (nodes s' x)) = length (nxt (nodes s x)) \<and>
             nxt (nodes s' x) ! i = nxt (nodes s x) ! i"
  shows "path s' i mk ns b = path s i mk ns b"
  using assms by (induction ns) (auto simp: cell_def)

lemma set_slot_simps [simp]:
  "head (set_slot s a i r) = head s"
  "tail (set_slot s a i r) = tail s"
  "Skiplist.level (set_slot s a i r) = Skiplist.level s"
  "fresh (set_slot s a i r) = fresh s"
  "itm (nodes (set_slot s a i r) x) = itm (nodes s x)"
  "Node.level (nodes (set_slot s a i r) x) = Node.level (nodes s x)"
  "length (nxt (nodes (set_slot s a i r) x)) = length (nxt (nodes s x))"
  by (simp_all add: set_slot_def)

lemma set_slot_nth:
  "nxt (nodes (set_slot s a i r) x) ! j =
     (if x = a \<and> j = i \<and> i < length (nxt (nodes s a)) then Some r else nxt (nodes s x) ! j)"
  by (auto simp: set_slot_def nth_list_update list_update_beyond not_less)

lemma set_slot_nxt_other [simp]: "x \<noteq> a \<Longrightarrow> nxt (nodes (set_slot s a i r) x) = nxt (nodes s x)"
  by (simp add: set_slot_def)

lemma path_set_slot_other_level:
  "j \<noteq> i \<Longrightarrow> path (set_slot s a i r) j mk ns b = path s j mk ns b"
  by (rule path_frame) (simp add: set_slot_nth)

lemma path_set_slot_other_node:
  "a \<notin> set ns \<Longrightarrow> path (set_slot s a i r) j mk ns b = path s j mk ns b"
  by (rule path_frame) (auto simp: set_slot_nth)

lemma cell_set_slot:
  "i < length (nxt (nodes s a)) \<Longrightarrow> cell (set_slot s a i \<lparr>deleted = mk a, ptr = Some n\<rparr>) i mk a n"
  by (simp add: cell_def set_slot_nth)

lemma getNext_cell:
  "cell s i mk a n \<Longrightarrow> getNext s (Some a) i = Inr (Some n, mk a)"
  by (simp add: getNext_def cell_def)

lemma dcasNext_cell:
  "cell s i mk a n \<Longrightarrow> \<not> mk a \<Longrightarrow>
   dcasNext s (Some a) i (Some n) np False nd = Inr (True, set_slot s a i \<lparr>deleted = nd, ptr = np\<rparr>)"
  by (simp add: dcasNext_def cell_def set_slot_def)

lemma setNext_set_slot:
  "i < length (nxt (nodes s a)) \<Longrightarrow>
   setNext s (Some a) i pt del = Inr (set_slot s a i \<lparr>deleted = del, ptr = pt\<rparr>)"
  by (simp add: setNext_def set_slot_def)

lemma getNext_set_slot_other:
  "x \<noteq> a \<Longrightarrow> getNext (set_slot s a i r) (Some x) j = getNext s (Some x) j"
  by (simp add: getNext_def)

lemma less_it_set_slot [simp]: "less_it cmp it (set_slot s a i r) x = less_it cmp it s x"
  by (simp add: less_it_def)

lemma walk_step:
  assumes "cell s i mk a n" "\<not> mk a" "less_it cmp it s a"
  shows "levelSearch cmp it i s prev (Some a) v =
         levelSearch cmp it i s (Some a) (Some n) (Compare cmp (itm (nodes s a)) it)"
  using assms getNext_cell[OF assms(1)]
  by (subst levelSearch.simps) (simp add: less_it_def Let_def)

lemma walk_stop:
  assumes "getNext s (Some a) i = Inr (n, False)" "\<not> less_it cmp it s a"
  shows "levelSearch cmp it i s prev (Some a) v =
         Some (Inr (Stop s prev (Some a) (Compare cmp (itm (nodes s a)) it)))"
  using assms
  by (subst levelSearch.simps) (simp add: less_it_def Let_def)

lemma walk_help:
  assumes "cell s i mk d n" "mk d" "cell s i mk pr d" "\<not> mk pr"
  shows "levelSearch cmp it i s (Some pr) (Some d) v =
         levelSearch cmp it i (set_slot s pr i \<lparr>deleted = False, ptr = Some n\<rparr>) (Some pr) (Some n) v"
proof -
  let ?s' = "set_slot s pr i \<lparr>deleted = False, ptr = Some n\<rparr>"
  have g: "getNext s (Some d) i = Inr (Some n, True)"
    using getNext_cell[OF assms(1)] assms(2) by simp
  have h: "helpDelete s i (Some pr) (Some d) (Some n) = Inr (True, ?s')"
    unfolding helpDelete_def using dcasNext_cell[OF assms(3,4)] by simp
  have "cell ?s' i (\<lambda>_. False) pr n"
    using assms(3) cell_set_slot[of i s pr "\<lambda>_. False" n] by (simp add: cell_def)
  then have g': "getNext ?s' (Some pr) i = Inr (Some n, False)"
    by (rule getNext_cell)
  show ?thesis
    by (subst levelSearch.simps) (simp add: g h g')
qed

lemma walk_list:
  assumes "path s i mk (pr # as) c" "\<And>a. a \<in> set as \<Longrightarrow> \<not> mk a \<and> less_it cmp it s a"
  shows "\<exists>v'. levelSearch cmp it i s (Some pr) (Some (hd (as @ [c]))) v =
              levelSearch cmp it i s (Some (last (pr # as))) (Some c) v'"
  using assms
proof (induction as arbitrary: pr v)
  case Nil
  then show ?case by auto
next
  case (Cons a as)
  from Cons.prems(1) have p: "path s i mk (a # as) c" and c: "cell s i mk a (hd (as @ [c]))"
    by simp_all
  from Cons.prems(2) have a: "\<not> mk a" "less_it cmp it s a" by simp_all
  from Cons.IH[OF p] Cons.prems(2) obtain v' where
    "levelSearch cmp it i s (Some a) (Some (hd (as @ [c]))) (Compare cmp (itm (nodes s a)) it) =
     levelSearch cmp it i s (Some (last (a # as))) (Some c) v'"
    by fastforce
  then show ?case using walk_step[OF c a, of prev] 
    by (intro exI[of _ v']) (simp add: walk_step[OF c a])
qed

lemma path_last:
  "path s i mk ns b \<Longrightarrow> ns \<noteq> [] \<Longrightarrow> cell s i mk (last ns) b"
  by (induction ns) (auto split: if_splits)

lemma path_relink_last:
  assumes "path s i mk ns b" "ns \<noteq> []" "distinct ns" "\<not> mk (last ns)"
  shows "path (set_slot s (last ns) i \<lparr>deleted = False, ptr = Some c\<rparr>) i mk ns c"
  using assms
proof (induction ns)
  case Nil
  then show ?case by simp
next
  case (Cons a ns)
  show ?case
  proof (cases "ns = []")
    case True
    then show ?thesis using Cons.prems cell_set_slot[of i s a mk c]
      by (simp add: cell_def)
  next
    case False
    then have l: "last (a # ns) = last ns" by simp
    have "last ns \<in> set ns" using False by simp
    then have ne: "a \<noteq> last ns" using Cons.prems(3) by auto
    have "path (set_slot s (last ns) i \<lparr>deleted = False, ptr = Some c\<rparr>) i mk ns c"
      using Cons.IH Cons.prems False by simp
    moreover have "cell (set_slot s (last ns) i \<lparr>deleted = False, ptr = Some c\<rparr>) i mk a (hd (ns @ [c]))"
      using Cons.prems(1) ne False by (simp add: cell_def set_slot_nth hd_append)
    ultimately show ?thesis unfolding l by simp
  qed
qed

lemma level_search:
  assumes pth: "path s i mk (pr # as @ es @ bs) 1"
    and dist: "distinct (pr # as @ es @ bs)" "1 \<notin> set (pr # as @ es @ bs)"
    and pr: "\<not> mk pr"
    and as: "\<And>a. a \<in> set as \<Longrightarrow> \<not> mk a \<and> less_it cmp it s a"
    and es: "es = [] \<or> (\<exists>d. es = [d] \<and> mk d)"
    and bs: "\<And>b. b \<in> set bs \<Longrightarrow> \<not> mk b \<and> \<not> less_it cmp it s b"
    and tl: "getNext s (Some 1) i = Inr (None, False)" "\<not> less_it cmp it s 1"
  defines "c \<equiv> hd (bs @ [1])" and "pl \<equiv> last (pr # as)"
  defines "s' \<equiv> (if es = [] then s else set_slot s pl i \<lparr>deleted = False, ptr = Some c\<rparr>)"
  shows "levelSearch cmp it i s (Some pr) (Some (hd (as @ es @ bs @ [1]))) v =
           Some (Inr (Stop s' (Some pl) (Some c) (Compare cmp (itm (nodes s c)) it)))"
    and "path s' i mk (pr # as @ bs) 1"
    and "\<not> less_it cmp it s c"
proof -
  have p1: "path s i mk (pr # as) (hd (es @ bs @ [1]))" and p2: "path s i mk (es @ bs) 1"
    using pth path_append[of s i mk "pr # as" "es @ bs" 1] by simp_all
  have nl: "\<not> less_it cmp it s c"
    using bs tl(2) unfolding c_def by (cases bs) auto
  show "\<not> less_it cmp it s c" by (rule nl)
  have gc: "getNext s (Some c) i = Inr (n, False)" if "n = (if bs = [] then None else Some (hd (tl bs @ [1])))" for n
  proof (cases bs)
    case Nil
    then show ?thesis using tl(1) that by (simp add: c_def)
  next
    case (Cons b bs')
    then have "path s i mk (b # bs') 1" using p2 path_append[of s i mk es bs 1] by simp
    then have "cell s i mk b (hd (bs' @ [1]))" by simp
    from getNext_cell[OF this] bs[of b] Cons that show ?thesis by (simp add: c_def)
  qed
  have mpl: "\<not> mk pl" using pr as unfolding pl_def by (cases "as = []") auto
  from walk_list[OF p1, of cmp it v] as obtain v' where
    w: "levelSearch cmp it i s (Some pr) (Some (hd (as @ [hd (es @ bs @ [1])]))) v =
        levelSearch cmp it i s (Some pl) (Some (hd (es @ bs @ [1]))) v'"
    unfolding pl_def by blast
  have hd_eq: "hd (as @ [hd (es @ bs @ [1])]) = hd (as @ es @ bs @ [1])"
    by (cases as) auto
  show "levelSearch cmp it i s (Some pr) (Some (hd (as @ es @ bs @ [1]))) v =
           Some (Inr (Stop s' (Some pl) (Some c) (Compare cmp (itm (nodes s c)) it)))"
  proof (cases "es = []")
    case True
    then show ?thesis
      using w walk_stop[OF gc[OF refl] nl, of "Some pl" v'] unfolding hd_eq
      by (simp add: s'_def c_def)
  next
    case False
    then obtain d where d: "es = [d]" "mk d" using es by auto
    have cd: "cell s i mk d c" using p2 d by (simp add: c_def)
    have cp: "cell s i mk pl d" using path_last[OF p1] d unfolding pl_def by simp
    have ne: "c \<noteq> pl"
    proof (cases bs)
      case Nil
      then show ?thesis using dist(2) unfolding c_def pl_def by (cases "as = []") auto
    next
      case (Cons b bs')
      have "pl \<in> set (pr # as)" unfolding pl_def by simp
      then show ?thesis using dist(1) Cons unfolding c_def by auto
    qed
    have gc': "getNext s' (Some c) i = Inr (if bs = [] then None else Some (hd (tl bs @ [1])), False)"
      using gc[OF refl] ne False by (simp add: s'_def getNext_set_slot_other)
    have nl': "\<not> less_it cmp it s' c" using nl False by (simp add: s'_def)
    have "levelSearch cmp it i s (Some pl) (Some d) v' = levelSearch cmp it i s' (Some pl) (Some c) v'"
      using walk_help[OF cd d(2) cp mpl] False by (simp add: s'_def)
    also have "\<dots> = Some (Inr (Stop s' (Some pl) (Some c) (Compare cmp (itm (nodes s' c)) it)))"
      by (rule walk_stop[OF gc' nl'])
    finally show ?thesis using w d False unfolding hd_eq by (simp add: s'_def)
  qed
  show "path s' i mk (pr # as @ bs) 1"
  proof (cases "es = []")
    case True
    then show ?thesis using pth by (simp add: s'_def)
  next
    case False
    then obtain d where d: "es = [d]" "mk d" using es by auto
    have "path s' i mk (pr # as) c"
      using path_relink_last[OF p1 _ _ , of c] dist(1) mpl False unfolding pl_def s'_def by simp
    moreover have "pl \<notin> set bs"
    proof -
      have "pl \<in> set (pr # as)" unfolding pl_def by simp
      then show ?thesis using dist(1) by auto
    qed
    then have "path s' i mk bs 1 = path s i mk bs 1"
      using False unfolding s'_def by (simp add: path_set_slot_other_node)
    moreover have "path s i mk bs 1" using p2 path_append[of s i mk es bs 1] by simp
    ultimately show ?thesis
      using path_append[of s' i mk "pr # as" bs 1] by (simp add: c_def)
  qed
qed

lemma in_chain_at: "a \<in> set (chain_at i xs) \<longleftrightarrow> (\<exists>v l. (a, v, l) \<in> set xs \<and> i \<le> l)"
  by (force simp: chain_at_def)

lemma set_chain_at_Suc: "set (chain_at (Suc i) xs) \<subseteq> set (chain_at i xs)"
  using Suc_leD by (fastforce simp: in_chain_at)

lemma distinct_chain_at: "distinct (map fst xs) \<Longrightarrow> distinct (chain_at i xs)"
  unfolding chain_at_def by (simp add: distinct_map_filter)

lemma chain_at_0: "chain_at 0 xs = map fst xs"
  by (simp add: chain_at_def)

lemma nodes_ok_set_slot:
  "nodes_ok s xs \<Longrightarrow> a \<noteq> 1 \<Longrightarrow> nodes_ok (set_slot s a i r) xs"
  unfolding nodes_ok_def by (auto simp: set_slot_simps)

lemma nodes_ok_entry:
  assumes "nodes_ok s xs" "(n, v, l) \<in> set xs"
  shows "2 \<le> n" "n < fresh s" "itm (nodes s n) = UserItem v" "unat (Node.level (nodes s n)) = l"
    "length (nxt (nodes s n)) = l + 1" "int l \<le> sint (Skiplist.level s)"
  using assms unfolding nodes_ok_def by auto

lemma nodes_ok_less_it:
  assumes "nodes_ok s xs" "(n, v, l) \<in> set xs"
  shows "less_it cmp it s n \<longleftrightarrow> cmp v it < 0"
  using nodes_ok_entry(3)[OF assms] by (simp add: less_it_def Compare_def)

lemma nodes_ok_tail:
  assumes "nodes_ok s xs" "i \<le> MaxLevel"
  shows "getNext s (Some 1) i = Inr (None, False)" "\<not> less_it cmp it s 1"
proof -
  have r: "nxt (nodes s 1) = replicate (MaxLevel + 1) None" and t: "itm (nodes s 1) = NilItem 1"
    using assms(1) unfolding nodes_ok_def by blast+
  have "length (nxt (nodes s 1)) = MaxLevel + 1" "nxt (nodes s 1) ! i = None"
    unfolding r using assms(2) by (simp_all only: length_replicate nth_replicate less_Suc_eq_le Suc_eq_plus1[symmetric])
  then show "getNext s (Some 1) i = Inr (None, False)"
    using assms(2) by (simp add: getNext_def)
  show "\<not> less_it cmp it s 1" using t by (simp add: less_it_def Compare_def)
qed

lemma linkedD:
  "linked s mk A E B k \<Longrightarrow> i \<le> MaxLevel \<Longrightarrow>
     path s i mk (0 # chain_at i (if i < k then A @ E @ B else A @ B)) 1"
  unfolding linked_def by blast

lemma last_split:
  assumes "pr \<in> set ns" "distinct ns"
  shows "\<exists>n1 n2. ns = n1 @ pr # n2 \<and> last ns = last (pr # n2)"
proof -
  from assms(1) obtain n1 n2 where "ns = n1 @ pr # n2" by (auto simp: in_set_conv_decomp)
  then show ?thesis by (intro exI[of _ n1] exI[of _ n2]) simp
qed

lemma findPath_levels_linked:
  assumes lk: "linked s mk A E B n" and n: "n \<le> MaxLevel + 1"
    and mkA': "\<forall>e\<in>set (A @ B). \<not> mk (fst e)" and mk0: "\<not> mk 0"
    and E: "E = [] \<or> (\<exists>e. E = [e] \<and> mk (fst e))"
    and kA': "\<forall>e\<in>set A. cmp (fst (snd e)) it < 0"
    and kB': "\<forall>e\<in>set (E @ B). \<not> cmp (fst (snd e)) it < 0"
    and prev: "prev = Some (last (0 # chain_at n A))"
    and len: "length preds = MaxLevel + 1" "length succs = MaxLevel + 1"
  shows "\<exists>s' preds' succs' v'.
           findPath_levels cmp it s n prev preds succs v = Some (Inr (Done s' preds' succs' v')) \<and>
           linked s' mk A E B 0 \<and> (E = [] \<longrightarrow> s' = s) \<and>
           length preds' = MaxLevel + 1 \<and> length succs' = MaxLevel + 1 \<and>
           (\<forall>j<n. preds' ! j = Some (last (0 # chain_at j A)) \<and>
                  succs' ! j = Some (hd (chain_at j B @ [1]))) \<and>
           (\<forall>j\<ge>n. preds' ! j = preds ! j \<and> succs' ! j = succs ! j) \<and>
           v' = (if n = 0 then v else case B of [] \<Rightarrow> 1 | (a, k, l) # _ \<Rightarrow> cmp k it)"
  using lk n prev len
proof (induction n arbitrary: s prev preds succs v)
  case 0
  then show ?case by simp
next
  case (Suc i)
  have mkA: "\<And>x. x \<in> fst ` set (A @ B) \<Longrightarrow> \<not> mk x" using mkA' by auto
  have kA: "\<And>a v l. (a, v, l) \<in> set A \<Longrightarrow> cmp v it < 0" using kA' by force
  have kB: "\<And>a v l. (a, v, l) \<in> set (E @ B) \<Longrightarrow> \<not> cmp v it < 0" using kB' by force
  note lk = Suc.prems(1)
  have ok: "nodes_ok s (A @ E @ B)" using lk by (simp add: linked_def)
  have i: "i \<le> MaxLevel" using Suc.prems(2) by simp
  define pr where "pr = last (0 # chain_at (Suc i) A)"
  let ?Ai = "chain_at i A" and ?Ei = "chain_at i E" and ?Bi = "chain_at i B"
  have pi: "path s i mk (0 # ?Ai @ ?Ei @ ?Bi) 1"
    using linkedD[OF lk i] by simp
  have dAll: "distinct (chain_at i (A @ E @ B))"
    using ok by (intro distinct_chain_at) (simp add: nodes_ok_def)
  have ge2: "x \<in> set (chain_at i (A @ E @ B)) \<Longrightarrow> 2 \<le> x" for x
    using ok by (auto simp: in_chain_at nodes_ok_def)
  have d0: "distinct (0 # ?Ai @ ?Ei @ ?Bi)" "1 \<notin> set (0 # ?Ai @ ?Ei @ ?Bi)"
  proof -
    have "0 \<notin> set (chain_at i (A @ E @ B))" "1 \<notin> set (chain_at i (A @ E @ B))"
      using ge2 by fastforce+
    then show "distinct (0 # ?Ai @ ?Ei @ ?Bi)" "1 \<notin> set (0 # ?Ai @ ?Ei @ ?Bi)"
      using dAll by simp_all
  qed
  have prin: "pr \<in> set (0 # ?Ai)"
  proof (cases "chain_at (Suc i) A = []")
    case True
    then show ?thesis by (simp add: pr_def)
  next
    case False
    then have "pr \<in> set (chain_at (Suc i) A)" by (simp add: pr_def)
    then show ?thesis using set_chain_at_Suc[of i A] by auto
  qed
  have dA: "distinct (0 # ?Ai)" using d0(1) by simp
  from last_split[OF prin dA] obtain A1 A2 where
    split: "0 # ?Ai = A1 @ pr # A2" "last (0 # ?Ai) = last (pr # A2)"
    by blast
  have whole: "0 # ?Ai @ ?Ei @ ?Bi = A1 @ pr # A2 @ ?Ei @ ?Bi"
  proof -
    have "0 # ?Ai @ ?Ei @ ?Bi = (0 # ?Ai) @ ?Ei @ ?Bi" by simp
    also have "\<dots> = (A1 @ pr # A2) @ ?Ei @ ?Bi" by (simp only: split(1))
    finally show ?thesis by simp
  qed
  have pp: "path s i mk (pr # A2 @ ?Ei @ ?Bi) 1" and pA1: "path s i mk A1 pr"
    using pi path_append[of s i mk A1 "pr # A2 @ ?Ei @ ?Bi" 1] unfolding whole by simp_all
  have dpr: "distinct (pr # A2 @ ?Ei @ ?Bi)" "1 \<notin> set (pr # A2 @ ?Ei @ ?Bi)"
    and dA1: "set A1 \<inter> set (pr # A2) = {}"
    using d0 unfolding whole by auto
  have setA: "set (pr # A2) \<subseteq> set (0 # ?Ai)"
    unfolding split(1) by auto
  have inA: "x \<in> set ?Ai \<Longrightarrow> \<not> mk x" for x
  proof -
    assume "x \<in> set ?Ai"
    then obtain v l where "(x, v, l) \<in> set A" by (auto simp: in_chain_at)
    then have "x \<in> fst ` set (A @ B)" by force
    then show ?thesis by (rule mkA)
  qed
  have mkpr: "\<not> mk pr"
    using prin mk0 inA by auto
  have asP: "a \<in> set A2 \<Longrightarrow> \<not> mk a \<and> less_it cmp it s a" for a
  proof -
    assume a: "a \<in> set A2"
    have "a \<in> set (A1 @ pr # A2)" using a by simp
    then have a0: "a \<in> set (0 # ?Ai)" by (simp only: split(1))
    have "a \<noteq> 0"
    proof
      assume "a = 0"
      then have "0 \<in> set A2" using a by simp
      moreover have "hd (A1 @ pr # A2) = 0" by (simp only: split(1)[symmetric] list.sel)
      ultimately have "\<not> distinct (A1 @ pr # A2)"
        by (cases A1) auto
      then show False using dA by (simp only: split(1))
    qed
    with a0 have "a \<in> set ?Ai" by simp
    then obtain v l where e: "(a, v, l) \<in> set A" by (auto simp: in_chain_at)
    then have "(a, v, l) \<in> set (A @ E @ B)" by simp
    from nodes_ok_less_it[OF ok this, of cmp it] kA[OF e] have "less_it cmp it s a" by simp
    moreover have "\<not> mk a" using \<open>a \<in> set ?Ai\<close> by (rule inA)
    ultimately show ?thesis by simp
  qed
  have esP: "?Ei = [] \<or> (\<exists>d. ?Ei = [d] \<and> mk d)"
    using E by (auto simp: chain_at_def)
  have bsP: "b \<in> set ?Bi \<Longrightarrow> \<not> mk b \<and> \<not> less_it cmp it s b" for b
  proof -
    assume "b \<in> set ?Bi"
    then obtain v l where e: "(b, v, l) \<in> set B" by (auto simp: in_chain_at)
    then have e1: "(b, v, l) \<in> set (A @ E @ B)" and e2: "(b, v, l) \<in> set (E @ B)" by simp_all
    from nodes_ok_less_it[OF ok e1, of cmp it] kB[OF e2] have "\<not> less_it cmp it s b" by simp
    moreover have "b \<in> fst ` set (A @ B)" using e by force
    then have "\<not> mk b" by (rule mkA)
    ultimately show ?thesis by simp
  qed
  note tl = nodes_ok_tail(1)[OF ok i] nodes_ok_tail(2)[OF ok i, of cmp it]
  define c where "c = hd (?Bi @ [1])"
  define pl where "pl = last (pr # A2)"
  define s' where "s' = (if ?Ei = [] then s else set_slot s pl i \<lparr>deleted = False, ptr = Some c\<rparr>)"
  note ls = level_search[OF pp dpr mkpr asP esP bsP tl, folded c_def pl_def, folded s'_def]
  have g: "getNext s (Some pr) i = Inr (Some (hd (A2 @ ?Ei @ ?Bi @ [1])), False)"
  proof -
    have "cell s i mk pr (hd ((A2 @ ?Ei @ ?Bi) @ [1]))" using pp by simp
    from getNext_cell[OF this] mkpr show ?thesis by simp
  qed
  have pl_last: "pl = last (0 # ?Ai)" using split(2) by (simp add: pl_def)
  have pl_ne1: "pl \<noteq> 1"
  proof -
    have "pl \<in> set (pr # A2)" unfolding pl_def by simp
    then show ?thesis using dpr(2) by auto
  qed
  have ok': "nodes_ok s' (A @ E @ B)"
    using ok pl_ne1 by (simp add: s'_def nodes_ok_set_slot)
  have pl_notA1: "pl \<notin> set A1"
  proof -
    have "pl \<in> set (pr # A2)" unfolding pl_def by simp
    then show ?thesis using dA1 by auto
  qed
  have lk': "linked s' mk A E B i"
    unfolding linked_def
  proof (intro conjI allI impI)
    show "nodes_ok s' (A @ E @ B)" by (rule ok')
    fix j assume j: "j \<le> MaxLevel"
    show "path s' j mk (0 # chain_at j (if j < i then A @ E @ B else A @ B)) 1"
    proof (cases "j = i")
      case True
      have "path s' i mk A1 pr"
        using pA1 pl_notA1 by (simp add: s'_def path_set_slot_other_node)
      then have "path s' i mk (A1 @ pr # A2 @ ?Bi) 1"
        using ls(2) path_append[of s' i mk A1 "pr # A2 @ ?Bi" 1] by simp
      moreover have "A1 @ pr # A2 @ ?Bi = 0 # chain_at i (A @ B)"
        using split(1) by (metis append_Cons append_assoc chain_at_append)
      ultimately show ?thesis using True by simp
    next
      case False
      have "path s' j mk ns 1 = path s j mk ns 1" for ns
        using False path_set_slot_other_level[of j i s pl _ mk ns 1]
        unfolding s'_def by (cases "?Ei = []"; simp del: path.simps)
      then have "path s' j mk (0 # chain_at j (if j < Suc i then A @ E @ B else A @ B)) 1 =
            path s j mk (0 # chain_at j (if j < Suc i then A @ E @ B else A @ B)) 1"
        by blast
      moreover have "(j < Suc i) = (j < i)" using False by auto
      ultimately show ?thesis using linkedD[OF lk j] by (simp del: path.simps)
    qed
  qed
  have same: "E = [] \<Longrightarrow> s' = s" by (simp add: s'_def)
  define v1 where "v1 = Compare cmp (itm (nodes s c)) it"
  have step: "findPath_levels cmp it s (Suc i) prev preds succs v =
      findPath_levels cmp it s' i (Some pl) (preds[i := Some pl]) (succs[i := Some c]) v1"
    using Suc.prems(3,4,5) g ls(1)[of v] i
    by (simp add: pr_def v1_def)
  from Suc.IH[OF lk' _ _ _ _, of "Some pl" "preds[i := Some pl]" "succs[i := Some c]" v1]
  obtain s'' preds' succs' v' where
    r: "findPath_levels cmp it s' i (Some pl) (preds[i := Some pl]) (succs[i := Some c]) v1
          = Some (Inr (Done s'' preds' succs' v'))"
    and post: "linked s'' mk A E B 0" "E = [] \<longrightarrow> s'' = s'"
      "length preds' = MaxLevel + 1" "length succs' = MaxLevel + 1"
      "\<forall>j<i. preds' ! j = Some (last (0 # chain_at j A)) \<and> succs' ! j = Some (hd (chain_at j B @ [1]))"
      "\<forall>j\<ge>i. preds' ! j = (preds[i := Some pl]) ! j \<and> succs' ! j = (succs[i := Some c]) ! j"
      "v' = (if i = 0 then v1 else case B of [] \<Rightarrow> 1 | (a, k, l) # _ \<Rightarrow> cmp k it)"
    using Suc.prems(2,4,5) pl_last by auto
  have v1_0: "i = 0 \<Longrightarrow> v1 = (case B of [] \<Rightarrow> 1 | (a, k, l) # _ \<Rightarrow> cmp k it)"
  proof -
    assume i0: "i = 0"
    show ?thesis
    proof (cases B)
      case Nil
      then show ?thesis using ok by (simp add: v1_def c_def nodes_ok_def Compare_def)
    next
      case (Cons e B')
      obtain a k l where e: "e = (a, k, l)" by (cases e)
      then have "(a, k, l) \<in> set (A @ E @ B)" using Cons by simp
      from nodes_ok_entry(3)[OF ok this] show ?thesis
        using Cons e i0 by (simp add: v1_def c_def chain_at_0 Compare_def)
    qed
  qed
  show ?case
  proof (rule exI[of _ s''], rule exI[of _ preds'], rule exI[of _ succs'], rule exI[of _ v'], intro conjI)
    show "findPath_levels cmp it s (Suc i) prev preds succs v = Some (Inr (Done s'' preds' succs' v'))"
      using step r by simp
    show "linked s'' mk A E B 0" by (rule post(1))
    show "E = [] \<longrightarrow> s'' = s" using post(2) same by simp
    show "length preds' = MaxLevel + 1" "length succs' = MaxLevel + 1" by (rule post(3), rule post(4))
    have il: "i < length preds" "i < length succs" using Suc.prems(4,5) i by simp_all
    have "preds' ! i = Some pl" "succs' ! i = Some c"
      using post(6) il by simp_all
    then show "\<forall>j<Suc i. preds' ! j = Some (last (0 # chain_at j A)) \<and> succs' ! j = Some (hd (chain_at j B @ [1]))"
      using post(5) pl_last by (auto simp: less_Suc_eq c_def)
    show "\<forall>j\<ge>Suc i. preds' ! j = preds ! j \<and> succs' ! j = succs ! j"
      using post(6) by auto
    show "v' = (if Suc i = 0 then v else case B of [] \<Rightarrow> 1 | (a, k, l) # _ \<Rightarrow> cmp k it)"
      using post(7) v1_0 by auto
  qed
qed

lemma linked_any_level:
  assumes ok: "nodes_ok s (A @ E @ B)"
    and k: "int k > sint (Skiplist.level s)" and k': "int k' > sint (Skiplist.level s)"
  shows "linked s mk A E B k = linked s mk A E B k'"
proof -
  have e: "chain_at i E = []" if "sint (Skiplist.level s) < int i" for i
  proof -
    have "\<And>n v l. (n, v, l) \<in> set E \<Longrightarrow> \<not> i \<le> l"
    proof -
      fix n v l assume "(n, v, l) \<in> set E"
      then have "(n, v, l) \<in> set (A @ E @ B)" by simp
      from nodes_ok_entry(6)[OF ok this] that show "\<not> i \<le> l" by simp
    qed
    then show ?thesis by (auto simp: chain_at_def filter_empty_conv)
  qed
  have "chain_at i (if i < k then A @ E @ B else A @ B) = chain_at i (if i < k' then A @ E @ B else A @ B)" for i
    using e[of i] k k' by (cases "i < k"; cases "i < k'"; simp)
  then show ?thesis by (simp add: linked_def del: path.simps)
qed

lemma findPath_linked:
  assumes lk: "linked s mk A E B (MaxLevel + 1)"
    and mkA: "\<forall>e\<in>set (A @ B). \<not> mk (fst e)" and mk0: "\<not> mk 0"
    and E: "E = [] \<or> (\<exists>e. E = [e] \<and> mk (fst e))"
    and kA: "\<forall>e\<in>set A. cmp (fst (snd e)) it < 0"
    and kB: "\<forall>e\<in>set (E @ B). \<not> cmp (fst (snd e)) it < 0"
  shows "\<exists>s' preds succs.
           findPath cmp s it = Some (Inr (s', preds, succs,
              (case B of [] \<Rightarrow> 1 | (a, k, l) # _ \<Rightarrow> cmp k it) = 0)) \<and>
           linked s' mk A E B 0 \<and> (E = [] \<longrightarrow> s' = s) \<and>
           length preds = MaxLevel + 1 \<and> length succs = MaxLevel + 1 \<and>
           (\<forall>j. int j \<le> sint (Skiplist.level s) \<longrightarrow>
                preds ! j = Some (last (0 # chain_at j A)) \<and>
                succs ! j = Some (hd (chain_at j B @ [1])))"
proof -
  have ok: "nodes_ok s (A @ E @ B)" using lk by (simp add: linked_def)
  define n where "n = nat (sint (Skiplist.level s) + 1)"
  have L: "0 \<le> sint (Skiplist.level s)" "sint (Skiplist.level s) \<le> int MaxLevel" "head s = Some 0"
    using ok by (simp_all add: nodes_ok_def)
  have n: "n \<le> MaxLevel + 1" "0 < n" "int n > sint (Skiplist.level s)"
    using L by (simp_all add: n_def)
  have lkn: "linked s mk A E B n"
    using linked_any_level[OF ok, of "MaxLevel + 1" n mk] lk n(3) L(2) by simp
  have top: "chain_at n A = []"
  proof -
    have "\<And>a v l. (a, v, l) \<in> set A \<Longrightarrow> \<not> n \<le> l"
    proof -
      fix a v l assume "(a, v, l) \<in> set A"
      then have "(a, v, l) \<in> set (A @ E @ B)" by simp
      from nodes_ok_entry(6)[OF ok this] n(3) show "\<not> n \<le> l" by simp
    qed
    then show ?thesis by (auto simp: chain_at_def filter_empty_conv)
  qed
  have prev: "head s = Some (last (0 # chain_at n A))" using L(3) top by simp
  from findPath_levels_linked[where cmp = cmp and it = it and v = 1
      and preds = "replicate (MaxLevel + 1) None" and succs = "replicate (MaxLevel + 1) None",
      OF lkn n(1) mkA mk0 E kA kB prev]
  obtain s' preds' succs' v' where
    r: "findPath_levels cmp it s n (head s) (replicate (MaxLevel + 1) None) (replicate (MaxLevel + 1) None) 1
          = Some (Inr (Done s' preds' succs' v'))"
    and post: "linked s' mk A E B 0" "E = [] \<longrightarrow> s' = s"
      "length preds' = MaxLevel + 1" "length succs' = MaxLevel + 1"
      "\<forall>j<n. preds' ! j = Some (last (0 # chain_at j A)) \<and> succs' ! j = Some (hd (chain_at j B @ [1]))"
      "v' = (if n = 0 then 1 else case B of [] \<Rightarrow> 1 | (a, k, l) # _ \<Rightarrow> cmp k it)"
    by (auto simp del: replicate_Suc)
  have "findPath cmp s it = Some (Inr (s', preds', succs', v' = 0))"
    unfolding findPath_def
    by (subst findPath_retry.simps) (simp only: r[unfolded n_def] option.case sum.case pass.case)
  moreover have "\<forall>j. int j \<le> sint (Skiplist.level s) \<longrightarrow>
                preds' ! j = Some (last (0 # chain_at j A)) \<and>
                succs' ! j = Some (hd (chain_at j B @ [1]))"
    using post(5) by (auto simp: n_def)
  ultimately show ?thesis using post n(2) by auto
qed

lemma link_at:
  assumes p: "path s i mk (0 # Ai @ Bi) 1"
    and nm: "\<forall>y\<in>set (0 # Ai). \<not> mk y" "\<not> mk x"
    and x: "x \<notin> set (0 # Ai @ Bi)" "x \<noteq> 1"
    and d: "distinct (0 # Ai @ Bi)"
    and len: "i < length (nxt (nodes s x))"
  defines "p0 \<equiv> last (0 # Ai)" and "c \<equiv> hd (Bi @ [1])"
  defines "sa \<equiv> set_slot s x i \<lparr>deleted = False, ptr = Some c\<rparr>"
  defines "sb \<equiv> set_slot sa p0 i \<lparr>deleted = False, ptr = Some x\<rparr>"
  shows "setNext s (Some x) i (Some c) False = Inr sa"
    and "dcasNext sa (Some p0) i (Some c) (Some x) False False = Inr (True, sb)"
    and "path sb i mk (0 # Ai @ x # Bi) 1"
proof -
  show "setNext s (Some x) i (Some c) False = Inr sa"
    unfolding sa_def by (rule setNext_set_slot[OF len])
  have p1: "path s i mk (0 # Ai) c" and p2: "path s i mk Bi 1"
    using p path_append[of s i mk "0 # Ai" Bi 1] by (simp_all add: c_def)
  have xA: "x \<notin> set (0 # Ai)" and xB: "x \<notin> set Bi" using x(1) by auto
  have p1a: "path sa i mk (0 # Ai) c"
    unfolding sa_def using p1 xA by (simp add: path_set_slot_other_node del: path.simps)
  have p2a: "path sa i mk Bi 1"
    unfolding sa_def using p2 xB by (simp add: path_set_slot_other_node del: path.simps)
  have cx: "cell sa i mk x c"
    unfolding sa_def using cell_set_slot[OF len, of mk c] nm(2) by simp
  have p0in: "p0 \<in> set (0 # Ai)" unfolding p0_def by simp
  have mp0: "\<not> mk p0" using nm(1) p0in by blast
  have cp: "cell sa i mk p0 c"
    using path_last[OF p1a] unfolding p0_def by simp
  show "dcasNext sa (Some p0) i (Some c) (Some x) False False = Inr (True, sb)"
    unfolding sb_def by (rule dcasNext_cell[OF cp mp0])
  have dA: "distinct (0 # Ai)" using d by simp
  have q1: "path sb i mk (0 # Ai) x"
    unfolding sb_def p0_def
    by (rule path_relink_last[OF p1a _ dA]) (use mp0 in \<open>simp_all add: p0_def\<close>)
  have "p0 \<noteq> x" using p0in xA by auto
  then have q2: "cell sb i mk x c"
    using cx unfolding sb_def by (simp add: cell_def set_slot_nth)
  have "p0 \<notin> set Bi" using p0in d by auto
  then have q3: "path sb i mk Bi 1"
    unfolding sb_def using p2a by (simp add: path_set_slot_other_node del: path.simps)
  have "path sb i mk ((0 # Ai) @ (x # Bi)) 1"
    unfolding path_append using q1 q2 q3 by (simp add: c_def)
  then show "path sb i mk (0 # Ai @ x # Bi) 1" by simp
qed

lemma link_level:
  assumes lk: "linked s (\<lambda>_. False) A [(x, it, l)] B i" and i: "i \<le> l"
  defines "p0 \<equiv> last (0 # chain_at i A)" and "c \<equiv> hd (chain_at i B @ [1])"
  defines "sa \<equiv> set_slot s x i \<lparr>deleted = False, ptr = Some c\<rparr>"
  defines "sb \<equiv> set_slot sa p0 i \<lparr>deleted = False, ptr = Some x\<rparr>"
  shows "setNext s (Some x) i (Some c) False = Inr sa"
    and "dcasNext sa (Some p0) i (Some c) (Some x) False False = Inr (True, sb)"
    and "linked sb (\<lambda>_. False) A [(x, it, l)] B (Suc i)"
proof -
  let ?mk = "\<lambda>_::addr. False"
  have ok: "nodes_ok s (A @ [(x, it, l)] @ B)" using lk by (simp add: linked_def)
  have e: "(x, it, l) \<in> set (A @ [(x, it, l)] @ B)" by simp
  note xe = nodes_ok_entry[OF ok e]
  have L: "sint (Skiplist.level s) \<le> int MaxLevel" using ok by (simp add: nodes_ok_def)
  have iM: "i \<le> MaxLevel" using i xe(6) L by simp
  have pi: "path s i ?mk (0 # chain_at i A @ chain_at i B) 1"
    using linkedD[OF lk iM] by simp
  have dall: "distinct (map fst (A @ [(x, it, l)] @ B))" using ok by (simp add: nodes_ok_def)
  have xnot: "x \<notin> fst ` set (A @ B)" using dall by auto
  have ge2: "\<And>y. y \<in> set (chain_at i (A @ B)) \<Longrightarrow> 2 \<le> y"
  proof -
    fix y assume "y \<in> set (chain_at i (A @ B))"
    then obtain v k where "(y, v, k) \<in> set (A @ B)" by (auto simp: in_chain_at)
    then have "(y, v, k) \<in> set (A @ [(x, it, l)] @ B)" by auto
    from nodes_ok_entry(1)[OF ok this] show "2 \<le> y" .
  qed
  have xc: "x \<notin> set (0 # chain_at i A @ chain_at i B)"
  proof -
    have "x \<notin> set (chain_at i (A @ B))" using xnot by (force simp: in_chain_at)
    then show ?thesis using xe(1) by simp
  qed
  have dd: "distinct (0 # chain_at i A @ chain_at i B)"
  proof -
    have "distinct (map fst (A @ B))" using dall by simp
    then have "distinct (chain_at i (A @ B))" by (rule distinct_chain_at)
    moreover have "0 \<notin> set (chain_at i (A @ B))" using ge2 by fastforce
    ultimately show ?thesis by simp
  qed
  have len: "i < length (nxt (nodes s x))" using xe(5) i by simp
  have x1: "x \<noteq> 1" using xe(1) by simp
  note la = link_at[OF pi _ _ xc x1 dd len, folded p0_def c_def, folded sa_def, folded sb_def]
  show "setNext s (Some x) i (Some c) False = Inr sa" by (rule la(1)) simp_all
  show "dcasNext sa (Some p0) i (Some c) (Some x) False False = Inr (True, sb)"
    by (rule la(2)) simp_all
  have pb: "path sb i ?mk (0 # chain_at i A @ x # chain_at i B) 1"
    by (rule la(3)) simp_all
  have p01: "p0 \<noteq> 1"
  proof -
    have "p0 \<in> set (0 # chain_at i A)" unfolding p0_def by simp
    moreover have "1 \<notin> set (chain_at i (A @ B))" using ge2 by fastforce
    ultimately show ?thesis by auto
  qed
  have okb: "nodes_ok sb (A @ [(x, it, l)] @ B)"
    unfolding sb_def sa_def using ok x1 p01 by (intro nodes_ok_set_slot) simp_all
  show "linked sb ?mk A [(x, it, l)] B (Suc i)"
    unfolding linked_def
  proof (intro conjI allI impI)
    show "nodes_ok sb (A @ [(x, it, l)] @ B)" by (rule okb)
    fix j assume j: "j \<le> MaxLevel"
    show "path sb j ?mk (0 # chain_at j (if j < Suc i then A @ [(x, it, l)] @ B else A @ B)) 1"
    proof (cases "j = i")
      case True
      then show ?thesis using pb i by (simp add: chain_at_Cons del: path.simps)
    next
      case False
      have "path sb j ?mk ns 1 = path s j ?mk ns 1" for ns
        unfolding sb_def sa_def using False by (simp add: path_set_slot_other_level del: path.simps)
      moreover have "(j < Suc i) = (j < i)" using False by auto
      ultimately show ?thesis using linkedD[OF lk j] by (simp del: path.simps)
    qed
  qed
qed

lemma stable_paths:
  "stable s xs \<longleftrightarrow> nodes_ok s xs \<and> (\<forall>i\<le>MaxLevel. path s i (\<lambda>_. False) (0 # chain_at i xs) 1)"
  by (simp add: stable_def linked_def del: path.simps)

lemma stable_linked:
  "stable s (A @ B) \<Longrightarrow> linked s (\<lambda>_. False) A [] B k"
  by (simp add: stable_paths linked_def del: path.simps)

lemma linked_stable:
  assumes "linked s (\<lambda>_. False) A [(x, it, l)] B (Suc l)"
  shows "stable s (A @ (x, it, l) # B)"
proof -
  have "chain_at i (if i < Suc l then A @ [(x, it, l)] @ B else A @ B) = chain_at i (A @ (x, it, l) # B)" for i
    by (simp add: chain_at_Cons)
  then show ?thesis using assms by (simp add: stable_paths linked_def del: path.simps)
qed

lemma randomLevel_seq:
  assumes ok: "nodes_ok s xs" and loop: "randomLevel_loop randFn 0 = Some k"
  shows "\<exists>lv s1 evs. randomLevel s randFn [] = Some (lv, s1, evs) \<and>
           0 \<le> lv \<and> lv \<le> sint (Skiplist.level s1) \<and>
           nodes s1 = nodes s \<and> fresh s1 = fresh s \<and> head s1 = head s \<and> tail s1 = tail s \<and>
           sint (Skiplist.level s) \<le> sint (Skiplist.level s1) \<and>
           sint (Skiplist.level s1) \<le> int MaxLevel"
proof -
  have L: "0 \<le> sint (Skiplist.level s)" "sint (Skiplist.level s) \<le> int MaxLevel"
    using ok by (simp_all add: nodes_ok_def)
  show ?thesis
  proof (cases "int (min k MaxLevel) > sint (Skiplist.level s)")
    case False
    then show ?thesis using L
      by (auto simp: randomLevel_def loop Let_def min_def split: if_splits)
  next
    case True
    then have lt: "sint (Skiplist.level s) < 32" by (simp add: MaxLevel_def)
    have up: "sint (Skiplist.level s + 1) = sint (Skiplist.level s) + 1"
      using lt L(1) by (simp add: sint_word_ariths signed_take_bit_int_eq_self)
    show ?thesis
      using True up L lt
      by (auto simp: randomLevel_def loop Let_def min_def MaxLevel_def env_steps_def)
  qed
qed

lemma stable_level_raise:
  assumes st: "stable s xs"
    and same: "nodes s1 = nodes s" "fresh s1 = fresh s" "head s1 = head s" "tail s1 = tail s"
    and lv: "sint (Skiplist.level s) \<le> sint (Skiplist.level s1)" "sint (Skiplist.level s1) \<le> int MaxLevel"
  shows "stable s1 xs"
proof -
  have ok: "nodes_ok s xs" and ps: "\<forall>i\<le>MaxLevel. path s i (\<lambda>_. False) (0 # chain_at i xs) 1"
    using st by (simp_all add: stable_paths del: path.simps)
  have "nodes_ok s1 xs"
    using ok same lv unfolding nodes_ok_def by (auto simp: same)
  moreover have "path s1 i mk ns b = path s i mk ns b" for i mk ns b
    by (rule path_frame) (simp add: same)
  ultimately show ?thesis using ps by (simp add: stable_paths del: path.simps)
qed

lemma newNode_linked:
  assumes st: "stable s (A @ B)" and lv: "0 \<le> lv" "lv \<le> sint (Skiplist.level s)"
  shows "\<exists>s2. newNode s (UserItem it) lv = Inr (fresh s, s2) \<and>
           linked s2 (\<lambda>_. False) A [(fresh s, it, nat lv)] B 0 \<and>
           Skiplist.level s2 = Skiplist.level s"
proof -
  define x where "x = fresh s"
  define s2 where "s2 = s\<lparr>nodes := (nodes s)(fresh s :=
                       \<lparr>nxt = replicate (nat (lv + 1)) None, itm = UserItem it, level = word_of_int lv\<rparr>),
                  fresh := fresh s + 1\<rparr>"
  have ok: "nodes_ok s (A @ B)" and ps: "\<forall>i\<le>MaxLevel. path s i (\<lambda>_. False) (0 # chain_at i (A @ B)) 1"
    using st by (simp_all add: stable_paths del: path.simps)
  have nn: "newNode s (UserItem it) lv = Inr (fresh s, s2)"
    using lv by (simp add: newNode_def s2_def)
  have L: "sint (Skiplist.level s) \<le> int MaxLevel" "2 \<le> fresh s" using ok by (simp_all add: nodes_ok_def)
  have lt: "\<And>n v l. (n, v, l) \<in> set (A @ B) \<Longrightarrow> n < fresh s \<and> 2 \<le> n"
    using ok unfolding nodes_ok_def by auto
  have old: "n < fresh s \<Longrightarrow> nodes s2 n = nodes s n" for n by (simp add: s2_def)
  have u16: "unat (word_of_int lv :: uint16) = nat lv"
  proof -
    have "lv < 2 ^ 16" using lv L by (simp add: MaxLevel_def)
    then have "uint (word_of_int lv :: uint16) = lv"
      using lv(1) by (simp add: uint_word_of_int take_bit_int_eq_self)
    then show ?thesis by (simp add: unat_eq_nat_uint)
  qed
  have ok2: "nodes_ok s2 (A @ [(fresh s, it, nat lv)] @ B)"
    unfolding nodes_ok_def
  proof (intro conjI ballI)
    show "distinct (map fst (A @ [(fresh s, it, nat lv)] @ B))"
      using ok lt unfolding nodes_ok_def by (force simp: image_iff)
    fix e assume e: "e \<in> set (A @ [(fresh s, it, nat lv)] @ B)"
    show "case e of (n, v, l) \<Rightarrow> 2 \<le> n \<and> n < fresh s2 \<and> itm (nodes s2 n) = UserItem v \<and>
        unat (Node.level (nodes s2 n)) = l \<and> length (nxt (nodes s2 n)) = l + 1 \<and>
        int l \<le> sint (Skiplist.level s2)"
    proof (cases "e = (fresh s, it, nat lv)")
      case True
      then show ?thesis using lv L u16 by (simp add: s2_def nat_add_distrib)
    next
      case False
      then have e': "e \<in> set (A @ B)" using e by auto
      obtain n v l where nvl: "e = (n, v, l)" by (cases e)
      from lt[of n v l] e' nvl have "n < fresh s" by simp
      then show ?thesis using nodes_ok_entry[OF ok e'[unfolded nvl]] old[of n] nvl
        by (simp add: s2_def)
    qed
  qed (use ok L in \<open>simp_all add: nodes_ok_def s2_def\<close>)
  have "path s2 i (\<lambda>_. False) (0 # chain_at i (A @ B)) 1 = path s i (\<lambda>_. False) (0 # chain_at i (A @ B)) 1" for i
  proof (rule path_frame)
    fix y assume "y \<in> set (0 # chain_at i (A @ B))"
    then have "y < fresh s" using L(2) lt by (auto simp: in_chain_at)
    then show "length (nxt (nodes s2 y)) = length (nxt (nodes s y)) \<and> nxt (nodes s2 y) ! i = nxt (nodes s y) ! i"
      using old by simp
  qed
  then have "linked s2 (\<lambda>_. False) A [(fresh s, it, nat lv)] B 0"
    using ok2 ps by (simp add: linked_def del: path.simps)
  then show ?thesis using nn by (auto simp: s2_def)
qed

lemma nodes_ok_subset:
  assumes "nodes_ok s xs" "set ys \<subseteq> set xs" "distinct (map fst ys)"
  shows "nodes_ok s ys"
proof -
  define P where "P = (\<lambda>e :: 'a entry. case e of (n, v, l) \<Rightarrow>
        2 \<le> n \<and> n < fresh s \<and> itm (nodes s n) = UserItem v \<and>
        unat (Node.level (nodes s n)) = l \<and> length (nxt (nodes s n)) = l + 1 \<and>
        int l \<le> sint (Skiplist.level s))"
  have a: "\<forall>e\<in>set xs. P e" using assms(1) by (simp add: nodes_ok_def P_def)
  have b: "\<forall>e\<in>set ys. P e" using a assms(2) by blast
  show ?thesis using assms(1,3) b by (simp add: nodes_ok_def P_def)
qed

lemma linked_drop_E:
  assumes "linked s (\<lambda>_. False) A E B 0"
  shows "linked s (\<lambda>_. False) A [] B k"
proof -
  have ok: "nodes_ok s (A @ E @ B)" using assms by (simp add: linked_def)
  then have "distinct (map fst (A @ E @ B))" by (simp add: nodes_ok_def)
  then have "distinct (map fst (A @ B))" by auto
  then have "nodes_ok s (A @ B)" by (intro nodes_ok_subset[OF ok]) auto
  then show ?thesis using assms by (simp add: linked_def del: path.simps)
qed

lemma Insert2_levels_linked:
  assumes lk: "linked s (\<lambda>_. False) A [(x, it, l)] B i"
    and n: "i + n = Suc l"
    and ps: "\<forall>j\<le>l. preds ! j = Some (last (0 # chain_at j A)) \<and>
                    succs ! j = Some (hd (chain_at j B @ [1]))"
    and len: "length preds = MaxLevel + 1" "length succs = MaxLevel + 1"
  shows "\<exists>s'. Insert2_levels cmp it x i n s preds succs = Some (Inr s') \<and>
              linked s' (\<lambda>_. False) A [(x, it, l)] B (Suc l)"
  using lk n
proof (induction n arbitrary: i s)
  case 0
  then show ?case by simp
next
  case (Suc n)
  have il: "i \<le> l" using Suc.prems(2) by simp
  have ok: "nodes_ok s (A @ [(x, it, l)] @ B)" using Suc.prems(1) by (simp add: linked_def)
  have "(x, it, l) \<in> set (A @ [(x, it, l)] @ B)" by simp
  from nodes_ok_entry(6)[OF ok this] have "int l \<le> sint (Skiplist.level s)" .
  moreover have "sint (Skiplist.level s) \<le> int MaxLevel" using ok by (simp add: nodes_ok_def)
  ultimately have iM: "i < length preds" "i < length succs" using il len by simp_all
  define p0 where "p0 = last (0 # chain_at i A)"
  define c where "c = hd (chain_at i B @ [1])"
  define sb where "sb = set_slot (set_slot s x i \<lparr>deleted = False, ptr = Some c\<rparr>)
                   p0 i \<lparr>deleted = False, ptr = Some x\<rparr>"
  note ll = link_level[OF Suc.prems(1) il, folded p0_def c_def, folded sb_def]
  have pi: "preds ! i = Some p0" "succs ! i = Some c"
    using ps il by (simp_all add: p0_def c_def)
  have fx: "Insert2_fixThisLevel cmp it x i s preds succs = Some (Inr (sb, preds, succs))"
    by (subst Insert2_fixThisLevel.simps) (simp add: iM pi ll(1,2) sb_def)
  have "Suc i + n = Suc l" using Suc.prems(2) by simp
  from Suc.IH[OF ll(3) this] obtain s' where
    "Insert2_levels cmp it x (Suc i) n sb preds succs = Some (Inr s')"
    "linked s' (\<lambda>_. False) A [(x, it, l)] B (Suc l)"
    by blast
  then show ?case using fx by auto
qed

lemma Insert2_stable:
  assumes st: "stable s (A @ B)"
    and kA: "\<forall>e\<in>set A. cmp (fst (snd e)) it < 0"
    and kB: "\<forall>e\<in>set B. \<not> cmp (fst (snd e)) it < 0"
    and loop: "randomLevel_loop randFn 0 = Some k"
  shows "\<exists>s' x l. Insert2 cmp s it randFn = Some (Inr s') \<and> stable s' (A @ (x, it, l) # B)"
proof -
  let ?mk = "\<lambda>_::addr. False"
  have ok: "nodes_ok s (A @ B)" using st by (simp add: stable_paths del: path.simps)
  from randomLevel_seq[OF ok loop] obtain lv s1 evs where
    rl: "randomLevel s randFn [] = Some (lv, s1, evs)"
    and lv: "0 \<le> lv" "lv \<le> sint (Skiplist.level s1)"
    and same: "nodes s1 = nodes s" "fresh s1 = fresh s" "head s1 = head s" "tail s1 = tail s"
    and lev: "sint (Skiplist.level s) \<le> sint (Skiplist.level s1)" "sint (Skiplist.level s1) \<le> int MaxLevel"
    by blast
  have st1: "stable s1 (A @ B)" by (rule stable_level_raise[OF st same lev])
  define x where "x = fresh s1"
  define l where "l = nat lv"
  from newNode_linked[OF st1 lv, of it] obtain s2 where
    nn: "newNode s1 (UserItem it) lv = Inr (x, s2)"
    and lk2: "linked s2 ?mk A [(x, it, l)] B 0"
    and l2: "Skiplist.level s2 = Skiplist.level s1"
    unfolding x_def l_def by blast
  have lk2': "linked s2 ?mk A [] B (MaxLevel + 1)" by (rule linked_drop_E[OF lk2])
  have kB0: "\<forall>e\<in>set ([] @ B). \<not> cmp (fst (snd e)) it < 0" using kB by simp
  have "\<exists>s' preds succs.
           findPath cmp s2 it = Some (Inr (s', preds, succs,
              (case B of [] \<Rightarrow> 1 | (a, k, l) # _ \<Rightarrow> cmp k it) = 0)) \<and>
           linked s' ?mk A [] B 0 \<and> ([] = ([] :: 'a entry list) \<longrightarrow> s' = s2) \<and>
           length preds = MaxLevel + 1 \<and> length succs = MaxLevel + 1 \<and>
           (\<forall>j. int j \<le> sint (Skiplist.level s2) \<longrightarrow>
                preds ! j = Some (last (0 # chain_at j A)) \<and>
                succs ! j = Some (hd (chain_at j B @ [1])))"
    by (rule findPath_linked[where mk = "?mk" and E = "[]" and cmp = cmp and it = it
          and s = s2 and A = A and B = B]) (use lk2' kA kB in simp_all)
  then obtain s2' preds succs fnd where
    fp: "findPath cmp s2 it = Some (Inr (s2', preds, succs, fnd))"
    and s2': "s2' = s2"
    and len: "length preds = MaxLevel + 1" "length succs = MaxLevel + 1"
    and ps: "\<forall>j. int j \<le> sint (Skiplist.level s2) \<longrightarrow>
                preds ! j = Some (last (0 # chain_at j A)) \<and>
                succs ! j = Some (hd (chain_at j B @ [1]))"
    by blast
  have lL: "int l \<le> sint (Skiplist.level s2)" using lv l2 by (simp add: l_def)
  have L0: "0 \<le> sint (Skiplist.level s2)" using lv l2 by simp
  have psl: "\<forall>j\<le>l. preds ! j = Some (last (0 # chain_at j A)) \<and>
                    succs ! j = Some (hd (chain_at j B @ [1]))"
    using ps lL by auto
  define p0 where "p0 = last (0 # chain_at 0 A)"
  define c where "c = hd (chain_at 0 B @ [1])"
  define s3 where "s3 = set_slot (set_slot s2 x 0 \<lparr>deleted = False, ptr = Some c\<rparr>)
                   p0 0 \<lparr>deleted = False, ptr = Some x\<rparr>"
  have "0 \<le> l" by simp
  note l0 = link_level[OF lk2 this, folded p0_def c_def, folded s3_def]
  have p00: "preds ! 0 = Some p0" "succs ! 0 = Some c"
    using psl by (simp_all add: p0_def c_def)
  have ne: "preds \<noteq> []" "succs \<noteq> []" using len by auto
  have lvl0: "Insert2_level0 cmp it x s2 = Some (Inr (s3, preds, succs))"
    by (subst Insert2_level0.simps) (simp add: fp s2' ne p00 l0(1,2) s3_def)
  have lk3: "linked s3 ?mk A [(x, it, l)] B (Suc 0)"
    by (rule l0(3))
  have "Suc 0 + l = Suc l" by simp
  from Insert2_levels_linked[where cmp = cmp, OF lk3 this psl len] obtain s' where
    il: "Insert2_levels cmp it x (Suc 0) l s3 preds succs = Some (Inr s')"
    and lk': "linked s' ?mk A [(x, it, l)] B (Suc l)"
    by blast
  have r1: "Insert2 cmp s it randFn = Some (Inr s')"
    using il by (simp add: Insert2_def rl nn lvl0 l_def)
  have r2: "stable s' (A @ (x, it, l) # B)" by (rule linked_stable[OF lk'])
  show ?thesis
    by (rule exI[of _ s'], rule exI[of _ x], rule exI[of _ l]) (simp only: r1 r2 simp_thms)
qed

lemma path_mark:
  assumes "path s i mk ns b"
    and "\<And>x. x \<in> set ns \<Longrightarrow> length (nxt (nodes s' x)) = length (nxt (nodes s x))"
    and "\<And>x. x \<in> set ns \<Longrightarrow> x \<noteq> d \<Longrightarrow> nxt (nodes s' x) ! i = nxt (nodes s x) ! i"
    and "d \<in> set ns \<Longrightarrow>
           nxt (nodes s' d) ! i = map_option (\<lambda>r. r\<lparr>deleted := True\<rparr>) (nxt (nodes s d) ! i)"
  shows "path s' i (\<lambda>x. x = d \<or> mk x) ns b"
  using assms
proof (induction ns)
  case Nil
  then show ?case by simp
next
  case (Cons a ns)
  have c: "cell s i mk a (hd (ns @ [b]))" and p: "path s i mk ns b"
    using Cons.prems(1) by simp_all
  have "path s' i (\<lambda>x. x = d \<or> mk x) ns b"
    using Cons.IH[OF p] Cons.prems(2,3,4) by simp
  moreover have "cell s' i (\<lambda>x. x = d \<or> mk x) a (hd (ns @ [b]))"
  proof (cases "a = d")
    case True
    then show ?thesis using c Cons.prems(2)[of a] Cons.prems(4) by (simp add: cell_def)
  next
    case False
    then show ?thesis using c Cons.prems(2)[of a] Cons.prems(3)[of a] by (simp add: cell_def)
  qed
  ultimately show ?case by simp
qed

lemma path_cell:
  "path s i mk ns b \<Longrightarrow> a \<in> set ns \<Longrightarrow> \<exists>n. cell s i mk a n"
  by (induction ns) auto

lemma Delete_mark_seq:
  assumes c: "cell s i (\<lambda>_. False) d n"
  shows "Delete_mark s (Some d) i (Some n) False [] dm evs =
           Some (Inr (set_slot s d i \<lparr>deleted = True, ptr = Some n\<rparr>, [], True,
                      evs @ [EvMarkCas i True]))"
proof -
  let ?s2 = "set_slot s d i \<lparr>deleted = True, ptr = Some n\<rparr>"
  have cas: "dcasNext s (Some d) i (Some n) (Some n) False True = Inr (True, ?s2)"
    using dcasNext_cell[OF c] by simp
  have "i < length (nxt (nodes s d))" using c by (simp add: cell_def)
  from cell_set_slot[OF this, of "\<lambda>_. True" n]
  have "cell ?s2 i (\<lambda>_. True) d n" by simp
  from getNext_cell[OF this] have g: "getNext ?s2 (Some d) i = Inr (Some n, True)" by simp
  have stop: "Delete_mark ?s2 (Some d) i (Some n) True [] True (evs @ [EvMarkCas i True]) =
        Some (Inr (?s2, [], True, evs @ [EvMarkCas i True]))"
    by (subst Delete_mark.simps) simp
  show ?thesis
    by (subst Delete_mark.simps) (simp add: env_steps_def cas g stop)
qed

lemma Delete_levels_seq:
  assumes ok: "nodes_ok s xs" and d: "(d, v, l) \<in> set xs" and j: "j \<le> Suc l"
    and ps: "\<forall>i\<le>MaxLevel. path s i (\<lambda>x. j \<le> i \<and> x = d) (0 # chain_at i xs) 1"
  shows "\<exists>s' evs'. Delete_levels s (Some d) j [] dm evs = Some (Inr (s', [], dm \<or> 0 < j, evs')) \<and>
           nodes_ok s' xs \<and>
           (\<forall>i\<le>MaxLevel. path s' i (\<lambda>x. x = d) (0 # chain_at i xs) 1)"
  using ok j ps
proof (induction j arbitrary: s dm evs)
  case 0
  then show ?case by (simp del: path.simps)
next
  case (Suc j)
  have jl: "j \<le> l" using Suc.prems(2) by simp
  from nodes_ok_entry[OF Suc.prems(1) d]
  have d2: "2 \<le> d" and lL: "int l \<le> sint (Skiplist.level s)" by simp_all
  have "sint (Skiplist.level s) \<le> int MaxLevel" using Suc.prems(1) by (simp add: nodes_ok_def)
  then have jM: "j \<le> MaxLevel" using jl lL by simp
  have mem: "d \<in> set (0 # chain_at j xs)" using d jl by (auto simp: in_chain_at)
  have "path s j (\<lambda>x. Suc j \<le> j \<and> x = d) (0 # chain_at j xs) 1"
    using Suc.prems(3) jM by blast
  then have pj: "path s j (\<lambda>_. False) (0 # chain_at j xs) 1" by (simp del: path.simps)
  from path_cell[OF pj mem] obtain n where c: "cell s j (\<lambda>_. False) d n" by blast
  define s2 where "s2 = set_slot s d j \<lparr>deleted = True, ptr = Some n\<rparr>"
  have g: "getNext s (Some d) j = Inr (Some n, False)" using getNext_cell[OF c] by simp
  have m: "Delete_mark s (Some d) j (Some n) False [] dm evs =
             Some (Inr (s2, [], True, evs @ [EvMarkCas j True]))"
    unfolding s2_def by (rule Delete_mark_seq[OF c])
  have ok2: "nodes_ok s2 xs"
    unfolding s2_def using d2 by (intro nodes_ok_set_slot[OF Suc.prems(1)]) simp
  have ps2: "\<forall>i\<le>MaxLevel. path s2 i (\<lambda>x. j \<le> i \<and> x = d) (0 # chain_at i xs) 1"
  proof (intro allI impI)
    fix i assume iM: "i \<le> MaxLevel"
    have pi: "path s i (\<lambda>x. Suc j \<le> i \<and> x = d) (0 # chain_at i xs) 1"
      using Suc.prems(3) iM by blast
    show "path s2 i (\<lambda>x. j \<le> i \<and> x = d) (0 # chain_at i xs) 1"
    proof (cases "i = j")
      case False
      then have "(\<lambda>x. j \<le> i \<and> x = d) = (\<lambda>x. Suc j \<le> i \<and> x = d)" by (auto simp: fun_eq_iff)
      then show ?thesis
        using pi False unfolding s2_def by (simp add: path_set_slot_other_level del: path.simps)
    next
      case True
      have sl: "nxt (nodes s d) ! j = Some \<lparr>deleted = False, ptr = Some n\<rparr>"
        "j < length (nxt (nodes s d))"
        using c by (simp_all add: cell_def)
      have "path s2 j (\<lambda>x. x = d \<or> False) (0 # chain_at j xs) 1"
        by (rule path_mark[OF pj]) (simp_all add: s2_def set_slot_nth sl)
      then show ?thesis unfolding True by (simp del: path.simps)
    qed
  qed
  have jl': "j \<le> Suc l" using jl by simp
  from Suc.IH[OF ok2 jl' ps2, of True "evs @ [EvMarkCas j True]"] obtain s' evs' where
    r: "Delete_levels s2 (Some d) j [] True (evs @ [EvMarkCas j True]) =
          Some (Inr (s', [], True, evs'))"
    and post: "nodes_ok s' xs" "\<forall>i\<le>MaxLevel. path s' i (\<lambda>x. x = d) (0 # chain_at i xs) 1"
    by auto
  have "Delete_levels s (Some d) (Suc j) [] dm evs = Some (Inr (s', [], True, evs'))"
    by (simp add: g m r)
  then show ?case using post by (intro exI[of _ s'] exI[of _ evs']) (simp del: path.simps)
qed

lemma Delete_absent:
  assumes st: "stable s (A @ B)"
    and kA: "\<forall>e\<in>set A. cmp (fst (snd e)) it < 0"
    and kB: "\<forall>e\<in>set B. \<not> cmp (fst (snd e)) it < 0"
    and nf: "(case B of [] \<Rightarrow> 1 | (a, k, l) # _ \<Rightarrow> cmp k it) \<noteq> 0"
  shows "Delete cmp s it [] = Some (Inr (NoResult, s, [EvFindPath False]))"
proof -
  have lk: "linked s (\<lambda>_. False) A [] B (MaxLevel + 1)" by (rule stable_linked[OF st])
  have "\<exists>s' preds succs.
           findPath cmp s it = Some (Inr (s', preds, succs,
              (case B of [] \<Rightarrow> 1 | (a, k, l) # _ \<Rightarrow> cmp k it) = 0)) \<and>
           linked s' (\<lambda>_. False) A [] B 0 \<and> ([] = ([] :: 'a entry list) \<longrightarrow> s' = s) \<and>
           length preds = MaxLevel + 1 \<and> length succs = MaxLevel + 1 \<and>
           (\<forall>j. int j \<le> sint (Skiplist.level s) \<longrightarrow>
                preds ! j = Some (last (0 # chain_at j A)) \<and>
                succs ! j = Some (hd (chain_at j B @ [1])))"
    by (rule findPath_linked[where mk = "\<lambda>_. False" and E = "[]" and cmp = cmp and it = it
          and s = s and A = A and B = B]) (use lk kA kB in simp_all)
  then obtain preds succs where
    fp: "findPath cmp s it = Some (Inr (s, preds, succs,
              (case B of [] \<Rightarrow> 1 | (a, k, l) # _ \<Rightarrow> cmp k it) = 0))"
    by blast
  show ?thesis unfolding Delete_def by (simp add: fp nf)
qed

lemma Delete_present:
  assumes st: "stable s (A @ (d, v, l) # B)"
    and kA: "\<forall>e\<in>set A. cmp (fst (snd e)) it < 0"
    and kd: "cmp v it = 0"
    and kB: "\<forall>e\<in>set B. \<not> cmp (fst (snd e)) it < 0"
  shows "\<exists>s' evs. Delete cmp s it [] = Some (Inr (NoResult, s', evs)) \<and> stable s' (A @ B)"
proof -
  let ?xs = "A @ (d, v, l) # B"
  let ?mk = "\<lambda>x. x = d"
  have ok: "nodes_ok s ?xs"
    and ps: "\<forall>i\<le>MaxLevel. path s i (\<lambda>_. False) (0 # chain_at i ?xs) 1"
    using st by (simp_all add: stable_paths del: path.simps)
  have dm: "(d, v, l) \<in> set ?xs" by simp
  from nodes_ok_entry[OF ok dm]
  have d2: "2 \<le> d" and tl: "unat (Node.level (nodes s d)) = l" by simp_all
  have L0: "0 \<le> sint (Skiplist.level s)" using ok by (simp add: nodes_ok_def)
  have dist: "distinct (map fst ?xs)" using ok by (simp add: nodes_ok_def)
  have dAB: "\<forall>e\<in>set (A @ B). fst e \<noteq> d" using dist by auto
  have lk: "linked s (\<lambda>_. False) A [] ((d, v, l) # B) (MaxLevel + 1)"
    by (rule stable_linked[OF st])
  have kB1: "\<forall>e\<in>set ((d, v, l) # B). \<not> cmp (fst (snd e)) it < 0" using kB kd by simp
  have "\<exists>s' preds succs.
           findPath cmp s it = Some (Inr (s', preds, succs,
              (case (d, v, l) # B of [] \<Rightarrow> 1 | (a, k, l) # _ \<Rightarrow> cmp k it) = 0)) \<and>
           linked s' (\<lambda>_. False) A [] ((d, v, l) # B) 0 \<and> ([] = ([] :: 'a entry list) \<longrightarrow> s' = s) \<and>
           length preds = MaxLevel + 1 \<and> length succs = MaxLevel + 1 \<and>
           (\<forall>j. int j \<le> sint (Skiplist.level s) \<longrightarrow>
                preds ! j = Some (last (0 # chain_at j A)) \<and>
                succs ! j = Some (hd (chain_at j ((d, v, l) # B) @ [1])))"
    by (rule findPath_linked[where mk = "\<lambda>_. False" and E = "[]" and cmp = cmp and it = it
          and s = s and A = A and B = "(d, v, l) # B"]) (use lk kA kB1 in simp_all)
  then obtain preds succs where
    fp: "findPath cmp s it = Some (Inr (s, preds, succs,
              (case (d, v, l) # B of [] \<Rightarrow> 1 | (a, k, l) # _ \<Rightarrow> cmp k it) = 0))"
    and len: "length succs = MaxLevel + 1"
    and sc: "\<forall>j. int j \<le> sint (Skiplist.level s) \<longrightarrow>
                succs ! j = Some (hd (chain_at j ((d, v, l) # B) @ [1]))"
    by blast
  have fp': "findPath cmp s it = Some (Inr (s, preds, succs, True))"
    using fp kd by simp
  have s0: "succs ! 0 = Some d" using sc L0 by (simp add: chain_at_Cons)
  have ne: "succs \<noteq> []" using len by auto
  have ps1: "\<forall>i\<le>MaxLevel. path s i (\<lambda>x. Suc l \<le> i \<and> x = d) (0 # chain_at i ?xs) 1"
  proof (intro allI impI)
    fix i assume iM: "i \<le> MaxLevel"
    have "path s i (\<lambda>x. Suc l \<le> i \<and> x = d) (0 # chain_at i ?xs) 1 =
          path s i (\<lambda>_. False) (0 # chain_at i ?xs) 1"
    proof (rule path_mk_cong)
      fix x assume x: "x \<in> set (0 # chain_at i ?xs)"
      show "(Suc l \<le> i \<and> x = d) = False"
      proof (cases "x = d")
        case False
        then show ?thesis by simp
      next
        case True
        then have "d \<in> set (chain_at i ?xs)" using x d2 by simp
        then obtain v' l' where m: "(d, v', l') \<in> set ?xs" "i \<le> l'"
          unfolding in_chain_at by blast
        have "l' = l" using m(1) dm dist by (meson eq_key_imp_eq_value prod.inject)
        then show ?thesis using m(2) by simp
      qed
    qed
    then show "path s i (\<lambda>x. Suc l \<le> i \<and> x = d) (0 # chain_at i ?xs) 1"
      using ps iM by blast
  qed
  from Delete_levels_seq[OF ok dm le_refl ps1, of False "[EvFindPath True]"]
  obtain s2 evs2 where
    dl: "Delete_levels s (Some d) (Suc l) [] False [EvFindPath True] =
           Some (Inr (s2, [], True, evs2))"
    and ok2: "nodes_ok s2 ?xs"
    and ps2: "\<forall>i\<le>MaxLevel. path s2 i ?mk (0 # chain_at i ?xs) 1"
    by auto
  have lk2: "linked s2 ?mk A [(d, v, l)] B (MaxLevel + 1)"
    using ok2 ps2 by (simp add: linked_def del: path.simps)
  have kB2: "\<forall>e\<in>set ([(d, v, l)] @ B). \<not> cmp (fst (snd e)) it < 0" using kB kd by simp
  have "\<exists>s' preds succs.
           findPath cmp s2 it = Some (Inr (s', preds, succs,
              (case B of [] \<Rightarrow> 1 | (a, k, l) # _ \<Rightarrow> cmp k it) = 0)) \<and>
           linked s' ?mk A [(d, v, l)] B 0 \<and> ([(d, v, l)] = [] \<longrightarrow> s' = s2) \<and>
           length preds = MaxLevel + 1 \<and> length succs = MaxLevel + 1 \<and>
           (\<forall>j. int j \<le> sint (Skiplist.level s2) \<longrightarrow>
                preds ! j = Some (last (0 # chain_at j A)) \<and>
                succs ! j = Some (hd (chain_at j B @ [1])))"
    by (rule findPath_linked[where mk = ?mk and E = "[(d, v, l)]" and cmp = cmp and it = it
          and s = s2 and A = A and B = B]) (use lk2 kA kB2 dAB d2 in simp_all)
  then obtain s3 preds3 succs3 fnd where
    fp3: "findPath cmp s2 it = Some (Inr (s3, preds3, succs3, fnd))"
    and lk3: "linked s3 ?mk A [(d, v, l)] B 0"
    by blast
  have ok3: "nodes_ok s3 (A @ [(d, v, l)] @ B)"
    and ps3: "\<forall>i\<le>MaxLevel. path s3 i ?mk (0 # chain_at i (A @ B)) 1"
    using lk3 by (simp_all add: linked_def del: path.simps)
  have okAB: "nodes_ok s3 (A @ B)"
    using dist by (intro nodes_ok_subset[OF ok3]) auto
  have ps4: "\<forall>i\<le>MaxLevel. path s3 i (\<lambda>_. False) (0 # chain_at i (A @ B)) 1"
  proof (intro allI impI)
    fix i assume iM: "i \<le> MaxLevel"
    have "path s3 i ?mk (0 # chain_at i (A @ B)) 1 =
          path s3 i (\<lambda>_. False) (0 # chain_at i (A @ B)) 1"
    proof (rule path_mk_cong)
      fix x assume x: "x \<in> set (0 # chain_at i (A @ B))"
      have "x \<noteq> d"
      proof (cases "x = 0")
        case True
        then show ?thesis using d2 by simp
      next
        case False
        then have "x \<in> set (chain_at i (A @ B))" using x by simp
        then obtain v' l' where "(x, v', l') \<in> set (A @ B)" unfolding in_chain_at by blast
        then show ?thesis using dAB by force
      qed
      then show "(x = d) = False" by simp
    qed
    then show "path s3 i (\<lambda>_. False) (0 # chain_at i (A @ B)) 1" using ps3 iM by blast
  qed
  have st3: "stable s3 (A @ B)" using okAB ps4 by (simp add: stable_paths del: path.simps)
  have "Delete cmp s it [] = Some (Inr (NoResult, s3, evs2 @ [EvFindPath fnd]))"
    unfolding Delete_def by (simp add: fp' ne s0 tl dl fp3 del: Delete_levels.simps)
  then show ?thesis using st3 by blast
qed

lemma randomLevel_loop_stops:
  assumes "\<exists>n. \<not> randFn n < p"
  shows "\<exists>k. randomLevel_loop randFn 0 = Some k"
proof -
  define k where "k = (LEAST n. \<not> randFn n < p)"
  have a: "\<not> randFn k < p" unfolding k_def using assms by (rule LeastI_ex)
  have b: "\<forall>j<k. randFn j < p"
  proof (intro allI impI)
    fix j assume "j < k"
    from not_less_Least[OF this[unfolded k_def]] show "randFn j < p" by simp
  qed
  have "randomLevel_loop randFn 0 = Some (0 + k)"
    by (rule randomLevel_loop_count) (use a b in simp_all)
  then show ?thesis by blast
qed

lemma stable_New: "stable (New :: 'a Skiplist) []"
proof -
  have "nodes_ok (New :: 'a Skiplist) []"
    by (simp add: nodes_ok_def New_def)
  moreover have "path (New :: 'a Skiplist) i (\<lambda>_. False) [0] 1" if "i \<le> MaxLevel" for i
    using that by (simp add: cell_def New_def del: replicate_Suc)
  ultimately show ?thesis by (simp add: stable_paths del: path.simps)
qed

lemma level0_from_path:
  assumes "path s 0 (\<lambda>_. False) ns 1" "tail s = Some 1" "1 \<notin> set ns"
  shows "level0_from s (Some (hd (ns @ [1]))) = Some (Inr (map (\<lambda>a. itm (nodes s a)) ns))"
  using assms
proof (induction ns)
  case Nil
  then show ?case by (subst level0_from.simps) simp
next
  case (Cons a ns)
  have c: "cell s 0 (\<lambda>_. False) a (hd (ns @ [1]))" and pth: "path s 0 (\<lambda>_. False) ns 1"
    using Cons.prems(1) by simp_all
  have a1: "a \<noteq> 1" and n1: "1 \<notin> set ns" using Cons.prems(3) by auto
  have g: "getNext s (Some a) 0 = Inr (Some (hd (ns @ [1])), False)"
    using getNext_cell[OF c] by simp
  have r: "level0_from s (Some (hd (ns @ [1]))) = Some (Inr (map (\<lambda>a. itm (nodes s a)) ns))"
    by (rule Cons.IH[OF pth Cons.prems(2) n1])
  show ?case
    using r a1 g Cons.prems(2) by (subst level0_from.simps) simp
qed

lemma level0_items_stable:
  assumes st: "stable s xs"
  shows "level0_items s = Some (Inr (map (\<lambda>e. UserItem (fst (snd e))) xs))"
proof -
  have ok: "nodes_ok s xs"
    and ps: "\<forall>i\<le>MaxLevel. path s i (\<lambda>_. False) (0 # chain_at i xs) 1"
    using st by (simp_all add: stable_paths del: path.simps)
  have hd: "head s = Some 0" and tl: "tail s = Some 1" using ok by (simp_all add: nodes_ok_def)
  have "path s 0 (\<lambda>_. False) (0 # chain_at 0 xs) 1" using ps by blast
  then have p0: "path s 0 (\<lambda>_. False) (0 # map fst xs) 1" unfolding chain_at_0 .
  then have c: "cell s 0 (\<lambda>_. False) 0 (hd (map fst xs @ [1]))"
    and pth: "path s 0 (\<lambda>_. False) (map fst xs) 1"
    by simp_all
  have g: "getNext s (Some 0) 0 = Inr (Some (hd (map fst xs @ [1])), False)"
    using getNext_cell[OF c] by simp
  have n1: "1 \<notin> set (map fst xs)"
  proof
    assume "1 \<in> set (map fst xs)"
    then obtain v l where "(1, v, l) \<in> set xs" by auto
    from nodes_ok_entry(1)[OF ok this] show False by simp
  qed
  have e: "map (\<lambda>a. itm (nodes s a)) (map fst xs) = map (\<lambda>e. UserItem (fst (snd e))) xs"
  proof -
    have "itm (nodes s (fst e)) = UserItem (fst (snd e))" if "e \<in> set xs" for e
    proof -
      obtain n v l where e: "e = (n, v, l)" by (cases e) auto
      from nodes_ok_entry(3)[OF ok that[unfolded e]] show ?thesis by (simp add: e)
    qed
    then show ?thesis by simp
  qed
  have w: "level0_from s (Some (hd (map fst xs @ [1]))) =
             Some (Inr (map (\<lambda>e. UserItem (fst (snd e))) xs))"
    using level0_from_path[OF pth tl n1] unfolding e .
  show ?thesis
    unfolding level0_items_def using w by (simp add: hd g)
qed

lemma cmp_split:
  assumes tot: "total_order_cmp cmp" and srt: "sorted_wrt (key_le cmp) xs"
  shows "\<forall>e\<in>set (takeWhile (key_below cmp it) xs). cmp (fst (snd e)) it < 0"
    and "\<forall>e\<in>set (dropWhile (key_below cmp it) xs). \<not> cmp (fst (snd e)) it < 0"
    and "\<forall>e\<in>set (dropWhile (key_below cmp it) xs). cmp it (fst (snd e)) \<le> 0"
proof -
  let ?P = "key_below cmp it"
  have anti: "\<And>a b. cmp a b < 0 \<longleftrightarrow> 0 < cmp b a"
    and trans: "\<And>a b c. cmp a b \<le> 0 \<Longrightarrow> cmp b c \<le> 0 \<Longrightarrow> cmp a c \<le> 0"
    using tot unfolding total_order_cmp_def by blast+
  show "\<forall>e\<in>set (takeWhile ?P xs). cmp (fst (snd e)) it < 0"
  proof
    fix e assume "e \<in> set (takeWhile ?P xs)"
    from set_takeWhileD[OF this] show "cmp (fst (snd e)) it < 0" by (simp add: key_below_def)
  qed
  have ge: "cmp it (fst (snd e)) \<le> 0" if e: "e \<in> set (dropWhile ?P xs)" for e
  proof (cases "dropWhile ?P xs")
    case Nil
    then show ?thesis using e unfolding Nil by simp
  next
    case (Cons b bs)
    have "\<not> ?P b" using hd_dropWhile[of ?P xs] Cons by simp
    then have "\<not> 0 < cmp it (fst (snd b))"
      using anti[of "fst (snd b)" it] by (simp add: key_below_def)
    then have itb: "cmp it (fst (snd b)) \<le> 0" by simp
    have "sorted_wrt (key_le cmp) (takeWhile ?P xs @ dropWhile ?P xs)" using srt by simp
    then have "sorted_wrt (key_le cmp) (b # bs)"
      unfolding sorted_wrt_append Cons by blast
    then have be: "e \<in> set bs \<Longrightarrow> cmp (fst (snd b)) (fst (snd e)) \<le> 0"
      by (auto simp: key_le_def)
    show ?thesis
    proof (cases "e = b")
      case True
      then show ?thesis using itb by simp
    next
      case False
      then have "e \<in> set bs" using e unfolding Cons by simp
      from trans[OF itb be[OF this]] show ?thesis .
    qed
  qed
  then show "\<forall>e\<in>set (dropWhile ?P xs). cmp it (fst (snd e)) \<le> 0" by blast
  show "\<forall>e\<in>set (dropWhile ?P xs). \<not> cmp (fst (snd e)) it < 0"
  proof
    fix e assume "e \<in> set (dropWhile ?P xs)"
    from ge[OF this] have "\<not> 0 < cmp it (fst (snd e))" by simp
    then show "\<not> cmp (fst (snd e)) it < 0" using anti[of "fst (snd e)" it] by simp
  qed
qed

lemma Insert2_sorted:
  assumes tot: "total_order_cmp cmp" and st: "stable s xs" and srt: "sorted_wrt (key_le cmp) xs"
    and rnd: "\<exists>n. \<not> randFn n < p"
  shows "\<exists>s' xs'. Insert2 cmp s it randFn = Some (Inr s') \<and> stable s' xs' \<and>
           sorted_wrt (key_le cmp) xs'"
proof -
  define A where "A = takeWhile (key_below cmp it) xs"
  define B where "B = dropWhile (key_below cmp it) xs"
  have xs: "xs = A @ B" by (simp add: A_def B_def)
  note sp = cmp_split[OF tot srt, of it, folded A_def B_def]
  from randomLevel_loop_stops[OF rnd] obtain k where k: "randomLevel_loop randFn 0 = Some k"
    by blast
  from Insert2_stable[where cmp = cmp and it = it, OF st[unfolded xs] sp(1) sp(2) k]
  obtain s' x l where
    r: "Insert2 cmp s it randFn = Some (Inr s')" and st': "stable s' (A @ (x, it, l) # B)"
    by blast
  have sA: "sorted_wrt (key_le cmp) A" and sB: "sorted_wrt (key_le cmp) B"
    and AB: "\<forall>a\<in>set A. \<forall>b\<in>set B. key_le cmp a b"
    using srt unfolding xs sorted_wrt_append by blast+
  have "\<forall>a\<in>set A. key_le cmp a (x, it, l)" using sp(1) by (auto simp: key_le_def)
  moreover have "\<forall>b\<in>set B. key_le cmp (x, it, l) b" using sp(3) by (simp add: key_le_def)
  ultimately have "sorted_wrt (key_le cmp) (A @ (x, it, l) # B)"
    using sA sB AB by (simp add: sorted_wrt_append)
  then show ?thesis using r st' by blast
qed

lemma Delete_sorted:
  assumes tot: "total_order_cmp cmp" and st: "stable s xs" and srt: "sorted_wrt (key_le cmp) xs"
  shows "\<exists>r s' evs xs'. Delete cmp s it [] = Some (Inr (r, s', evs)) \<and> stable s' xs' \<and>
           sorted_wrt (key_le cmp) xs'"
proof -
  define A where "A = takeWhile (key_below cmp it) xs"
  define B where "B = dropWhile (key_below cmp it) xs"
  have xs: "xs = A @ B" by (simp add: A_def B_def)
  note sp = cmp_split[OF tot srt, of it, folded A_def B_def]
  show ?thesis
  proof (cases "(case B of [] \<Rightarrow> 1 | (a, k, l) # _ \<Rightarrow> cmp k it) = 0")
    case False
    from Delete_absent[where cmp = cmp and it = it, OF st[unfolded xs] sp(1) sp(2) False]
    show ?thesis using st srt by blast
  next
    case True
    then obtain d v l B' where B: "B = (d, v, l) # B'" and kd: "cmp v it = 0"
      by (cases B) (auto split: prod.splits)
    have kB: "\<forall>e\<in>set B'. \<not> cmp (fst (snd e)) it < 0" using sp(2) B by simp
    from Delete_present[where cmp = cmp and it = it, OF st[unfolded xs B] sp(1) kd kB]
    obtain s' evs where
      r: "Delete cmp s it [] = Some (Inr (NoResult, s', evs))" and st': "stable s' (A @ B')"
      by blast
    have "sorted_wrt (key_le cmp) (A @ B')"
      using srt unfolding xs B by (simp add: sorted_wrt_append)
    then show ?thesis using r st' by blast
  qed
qed

lemma run_skiplist_op_sorted:
  assumes tot: "total_order_cmp cmp" and st: "stable s xs" and srt: "sorted_wrt (key_le cmp) xs"
    and rnd: "rand_stops opn"
  shows "\<exists>s' xs'. run_skiplist_op cmp s opn = Some (Inr s') \<and> stable s' xs' \<and>
           sorted_wrt (key_le cmp) xs'"
proof (cases opn)
  case (OpInsert it randFn)
  then show ?thesis using Insert2_sorted[OF tot st srt, of randFn it] rnd by simp
next
  case (OpDelete it)
  from Delete_sorted[OF tot st srt, of it] obtain r s' evs xs' where
    "Delete cmp s it [] = Some (Inr (r, s', evs))" "stable s' xs'" "sorted_wrt (key_le cmp) xs'"
    by blast
  then show ?thesis using OpDelete by auto
qed

lemma run_skiplist_ops_sorted:
  assumes tot: "total_order_cmp cmp" and st: "stable s xs" and srt: "sorted_wrt (key_le cmp) xs"
    and rnd: "\<forall>opn\<in>set ops. rand_stops opn"
  shows "\<exists>s' xs'. run_skiplist_ops cmp s ops = Some (Inr s') \<and> stable s' xs' \<and>
           sorted_wrt (key_le cmp) xs'"
  using st srt rnd
proof (induction ops arbitrary: s xs)
  case Nil
  then show ?case by auto
next
  case (Cons opn ops)
  have "rand_stops opn" using Cons.prems(3) by simp
  from run_skiplist_op_sorted[OF tot Cons.prems(1,2) this] obtain s1 xs1 where
    r: "run_skiplist_op cmp s opn = Some (Inr s1)" and st1: "stable s1 xs1"
    and srt1: "sorted_wrt (key_le cmp) xs1"
    by blast
  have "\<forall>opn\<in>set ops. rand_stops opn" using Cons.prems(3) by simp
  from Cons.IH[OF st1 srt1 this] show ?case by (simp add: r)
qed

text \<open>
  C5. A freshly constructed skiplist, then any finite sequence of single-threaded
  inserts and deletes, under a comparator that is a total order of the items and with
  every insert's random generator returning a sample not below \<open>p\<close> at some point: every
  call returns, and the items met along level 0 from head to tail (nodes whose
  level-0 edge is marked deleted left out) are items of the caller in non-decreasing
  order under the comparator.
\<close>

theorem level0_items_sorted:
  assumes "total_order_cmp cmp" and "list_all rand_stops ops"
  shows "\<exists>s ks. run_skiplist_ops cmp New ops = Some (Inr s) \<and>
           level0_items s = Some (Inr (map UserItem ks)) \<and>
           sorted_wrt (\<lambda>a b. cmp a b \<le> 0) ks"
proof -
  have "\<forall>opn\<in>set ops. rand_stops opn" using assms(2) by (simp add: list_all_iff)
  from run_skiplist_ops_sorted[OF assms(1) stable_New _ this, of ]
  obtain s xs where r: "run_skiplist_ops cmp New ops = Some (Inr s)"
    and st: "stable s xs" and srt: "sorted_wrt (key_le cmp) xs"
    by auto
  have "level0_items s = Some (Inr (map UserItem (map (\<lambda>e. fst (snd e)) xs)))"
    using level0_items_stable[OF st] by simp
  moreover have "sorted_wrt (\<lambda>a b. cmp a b \<le> 0) (map (\<lambda>e. fst (snd e)) xs)"
  proof -
    have "key_le cmp = (\<lambda>a b. cmp (fst (snd a)) (fst (snd b)) \<le> 0)"
      by (simp add: fun_eq_iff key_le_def)
    then show ?thesis using srt by (simp add: sorted_wrt_map)
  qed
  ultimately show ?thesis using r by blast
qed

theorem level0_items_sorted_witness:
  "total_order_cmp cmp_int \<and>
   list_all rand_stops
     [OpInsert 5 (\<lambda>_. 1), OpInsert 3 (\<lambda>n. if n < 2 then 0 else 1), OpInsert (7::int) (\<lambda>_. 1),
      OpDelete 5, OpInsert 3 (\<lambda>_. 1)] \<and>
   (\<exists>s ks. run_skiplist_ops cmp_int New
       [OpInsert 5 (\<lambda>_. 1), OpInsert 3 (\<lambda>n. if n < 2 then 0 else 1), OpInsert (7::int) (\<lambda>_. 1),
        OpDelete 5, OpInsert 3 (\<lambda>_. 1)] = Some (Inr s) \<and>
      level0_items s = Some (Inr (map UserItem ks)) \<and>
      sorted_wrt (\<lambda>a b. cmp_int a b \<le> 0) ks)"
proof -
  have a: "total_order_cmp cmp_int" by (simp add: total_order_cmp_def cmp_int_def)
  have b: "list_all rand_stops
     [OpInsert 5 (\<lambda>_. 1), OpInsert 3 (\<lambda>n. if n < 2 then 0 else 1), OpInsert (7::int) (\<lambda>_. 1),
      OpDelete 5, OpInsert 3 (\<lambda>_. 1)]"
    by (simp add: p_def) (rule exI[of _ 2], simp)
  from level0_items_sorted[OF a b] a b show ?thesis by blast
qed

end
